theory Spec2Isabelle
  imports Main "HOL-Library.Word" "HOL-Library.Multiset"
begin

section \<open>Portfolio mode: data model\<close>

text \<open>
  Shallow embedding of \<^verbatim>\<open>src/display/sketch/portfolio_mode.cpp\<close> and its header.
  The globals of the translation unit become one record that every operation takes and
  returns. An access outside an array, which is undefined behaviour in the source, is a
  value of the type \<open>error\<close>: every operation that indexes an array returns
  \<open>error + result\<close>.

  Integers: \<^verbatim>\<open>uint8_t\<close> is \<open>8 word\<close>, \<^verbatim>\<open>unsigned long\<close> (32 bits on the Arduino
  targets) is \<open>32 word\<close>, so that the timer subtraction wraps as in the source.
  \<^verbatim>\<open>int\<close> values are \<open>int\<close>: what \<open>atoi\<close> returns lies in the range of a 32-bit
  \<^verbatim>\<open>int\<close>, and after the clamping of the parser every \<^verbatim>\<open>int\<close> the program
  computes with stays far below any machine bound (offsets are at most 6 * 104, scores
  lie between -8 and 8). Loop counters and the cluster count, which are
  never negative, are \<open>nat\<close>.
\<close>

type_synonym u8 = "8 word"
type_synonym u32 = "32 word"

definition MAX_CLUSTERS :: nat where
  "MAX_CLUSTERS = 6"

definition MATRIX_WIDTH :: int where
  "MATRIX_WIDTH = 13"

definition MATRIX_HEIGHT :: int where
  "MATRIX_HEIGHT = 8"

definition TOTAL_PIXELS :: int where
  "TOTAL_PIXELS = 104"

record ClusterData =
  clusterID :: int
  pixels :: int
  brightness :: u8
  clustering :: int
  speed :: int
  symbol :: string

text \<open>
  The grid \<^verbatim>\<open>uint8_t pixelClusterID[8][13]\<close> is kept as the 104 bytes of the object in
  row-major order: \<^verbatim>\<open>pixelClusterID[y][x]\<close> is the entry \<open>y * 13 + x\<close>.
\<close>

record pm_state =
  inPortfolioMode :: bool
  clusters :: "ClusterData list"
  numClusters :: nat
  pixelClusterID :: "u8 list"
  pixelIndices :: "u8 list"
  lastUpdateTime :: "u32 list"

datatype error =
    PixelIndexOutOfBounds int
  | GridOutOfBounds int int

definition grid_index :: "int \<Rightarrow> int \<Rightarrow> nat" where
  "grid_index y x = nat (y * MATRIX_WIDTH + x)"

text \<open>The shape the declarations of the source give the arrays.\<close>

definition wf_state :: "pm_state \<Rightarrow> bool" where
  "wf_state st \<longleftrightarrow>
     length (clusters st) = MAX_CLUSTERS \<and>
     numClusters st \<le> MAX_CLUSTERS \<and>
     length (pixelClusterID st) = 104 \<and>
     length (pixelIndices st) = 104 \<and>
     length (lastUpdateTime st) = MAX_CLUSTERS"

section \<open>The C library and Arduino helpers the parser uses\<close>

text \<open>
  A C string is the list of its bytes before the terminating NUL; a pointer into it is
  the suffix it points at. \<open>strchr\<close> and \<open>strstr\<close> return the suffix starting at the
  first occurrence, \<open>None\<close> for the null pointer.
\<close>

definition c_str :: "string \<Rightarrow> string" where
  "c_str s = takeWhile (\<lambda>c. c \<noteq> CHR 0x00) s"

definition strchr :: "string \<Rightarrow> char \<Rightarrow> string option" where
  "strchr s c = (case dropWhile (\<lambda>d. d \<noteq> c) s of [] \<Rightarrow> None | r # rs \<Rightarrow> Some (r # rs))"

fun strstr :: "string \<Rightarrow> string \<Rightarrow> string option" where
  "strstr [] needle = (if needle = [] then Some [] else None)"
| "strstr (c # s) needle =
     (if take (length needle) (c # s) = needle then Some (c # s) else strstr s needle)"

definition isspace :: "char \<Rightarrow> bool" where
  "isspace c \<longleftrightarrow> c \<in> set [CHR 0x20, CHR 0x09, CHR 0x0A, CHR 0x0B, CHR 0x0C, CHR 0x0D]"

definition isdigit :: "char \<Rightarrow> bool" where
  "isdigit c \<longleftrightarrow> (48::nat) \<le> of_char c \<and> (of_char c :: nat) \<le> 57"

fun digits_value :: "int \<Rightarrow> string \<Rightarrow> int" where
  "digits_value acc [] = acc"
| "digits_value acc (c # s) =
     (if isdigit c then digits_value (acc * 10 + (of_char c - 48)) s else acc)"

text \<open>
  \<open>atoi\<close>: leading white space, an optional sign, then the decimal digits. The result
  is an \<^verbatim>\<open>int\<close> of the target (32 bits). For a digit string whose value does not fit,
  where the C standard leaves the result undefined, the model takes what the
  \<^verbatim>\<open>strtol\<close>-based implementations return: the nearest bound of the range. No
  statement below depends on that choice.
\<close>

definition INT_MIN :: int where
  "INT_MIN = - 2147483648"

definition INT_MAX :: int where
  "INT_MAX = 2147483647"

definition atoi :: "string \<Rightarrow> int" where
  "atoi s =
     (let v = (case dropWhile isspace s of
                 [] \<Rightarrow> 0
               | c # r \<Rightarrow>
                   if c = CHR 0x2D then - digits_value 0 r
                   else if c = CHR 0x2B then digits_value 0 r
                   else digits_value 0 (c # r))
      in if v < INT_MIN then INT_MIN else if INT_MAX < v then INT_MAX else v)"

text \<open>Arduino's macro \<^verbatim>\<open>constrain(amt, low, high)\<close>.\<close>

definition constrain :: "int \<Rightarrow> int \<Rightarrow> int \<Rightarrow> int" where
  "constrain amt low high = (if amt < low then low else if amt > high then high else amt)"

text \<open>
  Arduino's \<^verbatim>\<open>random(howbig)\<close> returns 0 for \<open>howbig = 0\<close> and otherwise the next raw
  value of the generator reduced modulo \<open>howbig\<close>. The generator is external: the raw
  values of one call of the update step are the parameter \<open>rnd\<close>, and \<open>k\<close> counts the
  draws made so far.
\<close>

type_synonym rng = "nat \<Rightarrow> nat"

definition arduino_random :: "rng \<Rightarrow> nat \<Rightarrow> int \<Rightarrow> int" where
  "arduino_random rnd k howbig = (if howbig = 0 then 0 else int (rnd k mod nat \<bar>howbig\<bar>))"

section \<open>The parser\<close>

definition dquote :: char where
  "dquote = CHR 0x22"

text \<open>\<^verbatim>\<open>snprintf(searchStr, 32, ...)\<close> keeps at most 31 bytes.\<close>

definition extractInt :: "string \<Rightarrow> string \<Rightarrow> int" where
  "extractInt json key =
     (let searchStr = take 31 ([dquote] @ key @ [dquote, CHR 0x3A]) in
      case strstr json searchStr of
        Some pos \<Rightarrow> atoi (dropWhile (\<lambda>c. c = CHR 0x20) (drop (length searchStr) pos))
      | None \<Rightarrow> 0)"

definition extractString :: "string \<Rightarrow> string \<Rightarrow> nat \<Rightarrow> string" where
  "extractString json key maxLen =
     (let searchStr = take 31 ([dquote] @ key @ [dquote, CHR 0x3A, dquote]) in
      case strstr json searchStr of
        Some pos \<Rightarrow>
          take (maxLen - 1) (takeWhile (\<lambda>c. c \<noteq> dquote) (drop (length searchStr) pos))
      | None \<Rightarrow> [])"

text \<open>
  The body of the parsing loop between the copy into \<^verbatim>\<open>objBuf\<close> and
  \<^verbatim>\<open>numClusters++\<close>: the six fields are extracted, the brightness through the cast to
  \<^verbatim>\<open>uint8_t\<close>, and then four of them are constrained.
\<close>

definition parseCluster :: "string \<Rightarrow> ClusterData" where
  "parseCluster objBuf =
     (let cid = extractInt objBuf ''cluster_id'';
          px = extractInt objBuf ''pixels'';
          br = (word_of_int (extractInt objBuf ''brightness'') :: u8);
          cl = extractInt objBuf ''clustering'';
          sp = extractInt objBuf ''speed'';
          sy = extractString objBuf ''symbol'' 10
      in \<lparr> clusterID = cid,
           pixels = constrain px 0 TOTAL_PIXELS,
           brightness = word_of_int (constrain (uint br) 80 220),
           clustering = constrain cl 1 10,
           speed = constrain sp 10 500,
           symbol = sy \<rparr>)"

function parseLoop :: "string \<Rightarrow> pm_state \<Rightarrow> pm_state" where
  "parseLoop pos st =
     (if numClusters st < MAX_CLUSTERS then
        (case strchr pos (CHR 0x7B) of
           None \<Rightarrow> st
         | Some objStart \<Rightarrow>
             (case strchr objStart (CHR 0x7D) of
                None \<Rightarrow> st
              | Some objEnd \<Rightarrow>
                  (let objLen = length objStart - length objEnd + 1 in
                   if objLen \<ge> 256 then st
                   else
                     parseLoop (tl objEnd)
                       (st\<lparr> clusters := (clusters st)[numClusters st := parseCluster (take objLen objStart)],
                           numClusters := numClusters st + 1 \<rparr>))))
      else st)"
  by pat_completeness auto
termination
  by (relation "measure (\<lambda>(pos, st). MAX_CLUSTERS - numClusters st)") auto

declare parseLoop.simps [simp del]

definition parseClusterData :: "string \<Rightarrow> pm_state \<Rightarrow> pm_state" where
  "parseClusterData json st =
     (let st0 = st\<lparr> numClusters := 0 \<rparr> in
      case strchr (c_str json) (CHR 0x5B) of
        None \<Rightarrow> st0
      | Some pos \<Rightarrow> parseLoop (tl pos) st0)"

section \<open>Applying a configuration\<close>

text \<open>
  The inner loop of \<^verbatim>\<open>setPortfolioMode\<close>:
  \<^verbatim>\<open>for (p = 0; p < clusterPixels && pixelIdx < TOTAL_PIXELS; p++)\<close>. The first argument
  counts the iterations \<open>p\<close> still allows. The read of \<^verbatim>\<open>pixelIndices[pixelIdx]\<close> is
  guarded by the loop condition; the write to the grid is not, and leaves the grid when
  the position read is 104 or more.
\<close>

fun assignPixels :: "nat \<Rightarrow> int \<Rightarrow> u8 list \<Rightarrow> nat \<times> u8 list \<Rightarrow> error + (nat \<times> u8 list)" where
  "assignPixels 0 cid pI (pixelIdx, g) = Inr (pixelIdx, g)"
| "assignPixels (Suc n) cid pI (pixelIdx, g) =
     (if int pixelIdx < TOTAL_PIXELS then
        (let pos = pI ! pixelIdx;
             x = pos mod 13;
             y = pos div 13
         in if uint y < MATRIX_HEIGHT then
              assignPixels n cid pI
                (pixelIdx + 1, g[grid_index (uint y) (uint x) := word_of_int cid])
            else Inl (GridOutOfBounds (uint y) (uint x)))
      else Inr (pixelIdx, g))"

text \<open>The outer loop \<^verbatim>\<open>for (c = 0; c < numClusters; c++)\<close>, over the indices it visits.\<close>

fun assignClusters :: "ClusterData list \<Rightarrow> u8 list \<Rightarrow> nat list \<Rightarrow> nat \<times> u8 list \<Rightarrow> error + (nat \<times> u8 list)" where
  "assignClusters cs pI [] s = Inr s"
| "assignClusters cs pI (c # rest) s =
     (case assignPixels (nat (pixels (cs ! c))) (clusterID (cs ! c)) pI s of
        Inl e \<Rightarrow> Inl e
      | Inr s' \<Rightarrow> assignClusters cs pI rest s')"

definition setPortfolioMode :: "string \<Rightarrow> pm_state \<Rightarrow> error + pm_state" where
  "setPortfolioMode clustersJSON st =
     (let st1 = parseClusterData clustersJSON st in
      if numClusters st1 = 0 then Inr (st1\<lparr> inPortfolioMode := False \<rparr>)
      else
        (case assignClusters (clusters st1) (pixelIndices st1) [0..<numClusters st1]
                (0, replicate 104 0) of
           Inl e \<Rightarrow> Inl e
         | Inr (pixelIdx, g) \<Rightarrow>
             Inr (st1\<lparr> pixelClusterID := g,
                       lastUpdateTime := replicate MAX_CLUSTERS 0,
                       inPortfolioMode := True \<rparr>)))"

section \<open>Neighbour counts\<close>

text \<open>
  The pairs \<open>(dy, dx)\<close> in the order the two nested loops visit them, the centre skipped
  by \<^verbatim>\<open>continue\<close>.
\<close>

definition neighbor_offsets :: "(int \<times> int) list" where
  "neighbor_offsets =
     [(dy, dx). dy \<leftarrow> [-1, 0, 1], dx \<leftarrow> [-1, 0, 1], \<not> (dx = 0 \<and> dy = 0)]"

definition countClusterNeighbors :: "u8 list \<Rightarrow> u8 \<Rightarrow> u8 \<Rightarrow> int \<Rightarrow> int" where
  "countClusterNeighbors g x y targetClusterID =
     foldl (\<lambda>count (dy, dx).
        let nx = uint x + dx; ny = uint y + dy in
        if nx \<ge> 0 \<and> nx < MATRIX_WIDTH \<and> ny \<ge> 0 \<and> ny < MATRIX_HEIGHT then
          (if uint (g ! grid_index ny nx) = targetClusterID then count + 1 else count)
        else count)
      0 neighbor_offsets"

definition countOtherClusterNeighbors :: "u8 list \<Rightarrow> u8 \<Rightarrow> u8 \<Rightarrow> int \<Rightarrow> int" where
  "countOtherClusterNeighbors g x y ownClusterID =
     foldl (\<lambda>count (dy, dx).
        let nx = uint x + dx; ny = uint y + dy in
        if nx \<ge> 0 \<and> nx < MATRIX_WIDTH \<and> ny \<ge> 0 \<and> ny < MATRIX_HEIGHT then
          (if g ! grid_index ny nx \<noteq> 0 \<and> uint (g ! grid_index ny nx) \<noteq> ownClusterID
           then count + 1 else count)
        else count)
      0 neighbor_offsets"

section \<open>The update step\<close>

text \<open>
  The body of the first sampling loop of \<^verbatim>\<open>updatePortfolioPattern\<close>. The state of the
  loop is the draw counter, \<^verbatim>\<open>bestIsolatedIdx\<close> and \<^verbatim>\<open>worstScore\<close>.
  \<^verbatim>\<open>pixelIndices[idx]\<close> is read without a check in the source.
\<close>

definition isolatedBody :: "pm_state \<Rightarrow> rng \<Rightarrow> ClusterData \<Rightarrow> int \<Rightarrow> nat \<times> int \<times> int \<Rightarrow> error + (nat \<times> int \<times> int)" where
  "isolatedBody st rnd cluster pixelOffset s =
     (case s of (k, bestIsolatedIdx, worstScore) \<Rightarrow>
        (let idx = pixelOffset + arduino_random rnd k (pixels cluster) in
         if idx < 0 \<or> TOTAL_PIXELS \<le> idx then Inl (PixelIndexOutOfBounds idx)
         else
           (let pos = pixelIndices st ! nat idx;
                x = pos mod 13;
                y = pos div 13;
                sameNeighbors = countClusterNeighbors (pixelClusterID st) x y (clusterID cluster);
                otherNeighbors = countOtherClusterNeighbors (pixelClusterID st) x y (clusterID cluster);
                score = sameNeighbors - otherNeighbors
            in if score > worstScore then Inr (k + 1, idx, score)
               else Inr (k + 1, bestIsolatedIdx, worstScore))))"

text \<open>\<^verbatim>\<open>for (i = 0; i < cluster.clustering; i++)\<close>: the first argument counts the iterations left.\<close>

fun isolatedLoop :: "nat \<Rightarrow> pm_state \<Rightarrow> rng \<Rightarrow> ClusterData \<Rightarrow> int \<Rightarrow> nat \<times> int \<times> int \<Rightarrow> error + (nat \<times> int \<times> int)" where
  "isolatedLoop 0 st rnd cluster pixelOffset s = Inr s"
| "isolatedLoop (Suc n) st rnd cluster pixelOffset s =
     (case isolatedBody st rnd cluster pixelOffset s of
        Inl e \<Rightarrow> Inl e
      | Inr s' \<Rightarrow> isolatedLoop n st rnd cluster pixelOffset s')"

text \<open>The second sampling loop, on \<^verbatim>\<open>bestTargetIdx\<close> and \<^verbatim>\<open>bestScore\<close>.\<close>

definition targetBody :: "pm_state \<Rightarrow> rng \<Rightarrow> ClusterData \<Rightarrow> int \<Rightarrow> nat \<times> int \<times> int \<Rightarrow> error + (nat \<times> int \<times> int)" where
  "targetBody st rnd cluster pixelOffset s =
     (case s of (k, bestTargetIdx, bestScore) \<Rightarrow>
        (let idx = pixelOffset + arduino_random rnd k (pixels cluster) in
         if idx < 0 \<or> TOTAL_PIXELS \<le> idx then Inl (PixelIndexOutOfBounds idx)
         else
           (let pos = pixelIndices st ! nat idx;
                x = pos mod 13;
                y = pos div 13;
                sameNeighbors = countClusterNeighbors (pixelClusterID st) x y (clusterID cluster);
                otherNeighbors = countOtherClusterNeighbors (pixelClusterID st) x y (clusterID cluster);
                score = sameNeighbors - otherNeighbors
            in if score > bestScore then Inr (k + 1, idx, score)
               else Inr (k + 1, bestTargetIdx, bestScore))))"

fun targetLoop :: "nat \<Rightarrow> pm_state \<Rightarrow> rng \<Rightarrow> ClusterData \<Rightarrow> int \<Rightarrow> nat \<times> int \<times> int \<Rightarrow> error + (nat \<times> int \<times> int)" where
  "targetLoop 0 st rnd cluster pixelOffset s = Inr s"
| "targetLoop (Suc n) st rnd cluster pixelOffset s =
     (case targetBody st rnd cluster pixelOffset s of
        Inl e \<Rightarrow> Inl e
      | Inr s' \<Rightarrow> targetLoop n st rnd cluster pixelOffset s')"

text \<open>
  The swap at the end of a cluster's step: the two entries of the pixel ordering, then
  the two grid cells the swapped entries name. Neither index and neither cell is checked
  in the source.
\<close>

definition swapPixels :: "int \<Rightarrow> int \<Rightarrow> pm_state \<Rightarrow> error + pm_state" where
  "swapPixels bestIsolatedIdx bestTargetIdx st =
     (if bestIsolatedIdx \<noteq> bestTargetIdx then
        (if bestIsolatedIdx < 0 \<or> TOTAL_PIXELS \<le> bestIsolatedIdx
         then Inl (PixelIndexOutOfBounds bestIsolatedIdx)
         else if bestTargetIdx < 0 \<or> TOTAL_PIXELS \<le> bestTargetIdx
         then Inl (PixelIndexOutOfBounds bestTargetIdx)
         else
           (let temp = pixelIndices st ! nat bestIsolatedIdx;
                pI1 = (pixelIndices st)[nat bestIsolatedIdx := pixelIndices st ! nat bestTargetIdx];
                pI2 = pI1[nat bestTargetIdx := temp];
                pos1 = pI2 ! nat bestIsolatedIdx;
                pos2 = pI2 ! nat bestTargetIdx;
                x1 = pos1 mod 13;
                y1 = pos1 div 13;
                x2 = pos2 mod 13;
                y2 = pos2 div 13
            in if \<not> uint y1 < MATRIX_HEIGHT then Inl (GridOutOfBounds (uint y1) (uint x1))
               else if \<not> uint y2 < MATRIX_HEIGHT then Inl (GridOutOfBounds (uint y2) (uint x2))
               else
                 (let i1 = grid_index (uint y1) (uint x1);
                      i2 = grid_index (uint y2) (uint x2);
                      tempID = pixelClusterID st ! i1;
                      g1 = (pixelClusterID st)[i1 := pixelClusterID st ! i2];
                      g2 = g1[i2 := tempID]
                  in Inr (st\<lparr> pixelIndices := pI2, pixelClusterID := g2 \<rparr>))))
      else Inr st)"

text \<open>
  One iteration of the loop over the clusters. The loop state is \<^verbatim>\<open>pixelOffset\<close>, the
  draw counter and the globals. The comparison of the timer is the source's, on
  \<^verbatim>\<open>unsigned long\<close>.
\<close>

definition clusterStep :: "u32 \<Rightarrow> rng \<Rightarrow> nat \<Rightarrow> int \<times> nat \<times> pm_state \<Rightarrow> error + (int \<times> nat \<times> pm_state)" where
  "clusterStep currentTime rnd c s =
     (case s of (pixelOffset, k, st) \<Rightarrow>
        (let cluster = clusters st ! c in
         if currentTime - lastUpdateTime st ! c < word_of_int (speed cluster)
         then Inr (pixelOffset + pixels cluster, k, st)
         else
           (let st1 = st\<lparr> lastUpdateTime := (lastUpdateTime st)[c := currentTime] \<rparr> in
            if pixels cluster = 0 then Inr (pixelOffset, k, st1)
            else
              (let bestIsolatedIdx0 = pixelOffset + arduino_random rnd k (pixels cluster) in
               case isolatedLoop (nat (clustering cluster)) st1 rnd cluster pixelOffset
                      (k + 1, bestIsolatedIdx0, - 100) of
                 Inl e \<Rightarrow> Inl e
               | Inr (k1, bestIsolatedIdx, worstScore) \<Rightarrow>
                   (let bestTargetIdx0 = pixelOffset + arduino_random rnd k1 (pixels cluster) in
                    case targetLoop (nat (clustering cluster)) st1 rnd cluster pixelOffset
                           (k1 + 1, bestTargetIdx0, - 100) of
                      Inl e \<Rightarrow> Inl e
                    | Inr (k2, bestTargetIdx, bestScore) \<Rightarrow>
                        (case swapPixels bestIsolatedIdx bestTargetIdx st1 of
                           Inl e \<Rightarrow> Inl e
                         | Inr st2 \<Rightarrow> Inr (pixelOffset + pixels cluster, k2, st2)))))))"

fun updateLoop :: "u32 \<Rightarrow> rng \<Rightarrow> nat list \<Rightarrow> int \<times> nat \<times> pm_state \<Rightarrow> error + (int \<times> nat \<times> pm_state)" where
  "updateLoop currentTime rnd [] s = Inr s"
| "updateLoop currentTime rnd (c # rest) s =
     (case clusterStep currentTime rnd c s of
        Inl e \<Rightarrow> Inl e
      | Inr s' \<Rightarrow> updateLoop currentTime rnd rest s')"

text \<open>
  \<^verbatim>\<open>updatePortfolioPattern\<close>: \<open>currentTime\<close> is the value \<^verbatim>\<open>millis()\<close> returns. The loop
  never writes \<^verbatim>\<open>numClusters\<close>, so the indices it visits are those below the count at
  entry.
\<close>

definition updatePortfolioPattern :: "u32 \<Rightarrow> rng \<Rightarrow> pm_state \<Rightarrow> error + pm_state" where
  "updatePortfolioPattern currentTime rnd st =
     (case updateLoop currentTime rnd [0..<numClusters st] (0, 0, st) of
        Inl e \<Rightarrow> Inl e
      | Inr (pixelOffset, k, st') \<Rightarrow> Inr st')"

section \<open>Example states\<close>

text \<open>
  The globals as a freshly started sketch has them: zero-initialised, and the pixel
  ordering of the main sketch in its initial order, entry \<open>i\<close> naming position \<open>i\<close>.
\<close>

definition zero_cluster :: ClusterData where
  "zero_cluster = \<lparr> clusterID = 0, pixels = 0, brightness = 0, clustering = 0, speed = 0, symbol = [] \<rparr>"

definition boot_state :: pm_state where
  "boot_state =
     \<lparr> inPortfolioMode = False,
       clusters = replicate 6 zero_cluster,
       numClusters = 0,
       pixelClusterID = replicate 104 0,
       pixelIndices = map of_nat [0..<104],
       lastUpdateTime = replicate 6 0 \<rparr>"

text \<open>
  A configuration of two holdings of 60 pixels each, and one whose brightness is above
  the range of a byte.
\<close>

definition overrun_config :: string where
  \<open>overrun_config = ''[{"cluster_id":1,"pixels":60,"brightness":180,"clustering":3,"speed":100,"symbol":"AAPL"},{"cluster_id":2,"pixels":60,"brightness":150,"clustering":2,"speed":50,"symbol":"MSFT"}]''\<close>

definition bright_config :: string where
  \<open>bright_config = ''[{"cluster_id":1,"pixels":20,"brightness":300,"clustering":3,"speed":100,"symbol":"AAPL"}]''\<close>

section \<open>Notions the statements use\<close>

text \<open>The sum of the pixel counts of the active clusters.\<close>

definition totalPixels :: "pm_state \<Rightarrow> int" where
  "totalPixels st = sum_list (map pixels (take (numClusters st) (clusters st)))"

text \<open>The two assignments that end an iteration of the parsing loop.\<close>

definition storeCluster :: "ClusterData \<Rightarrow> pm_state \<Rightarrow> pm_state" where
  "storeCluster cd st =
     st\<lparr> clusters := (clusters st)[numClusters st := cd], numClusters := numClusters st + 1 \<rparr>"

text \<open>
  The eight coordinates \<open>(ny, nx)\<close> around the cell \<open>(x, y)\<close>, those of them that lie in
  the matrix, and the kinds of cell of the matrix.
\<close>

definition surrounding :: "u8 \<Rightarrow> u8 \<Rightarrow> (int \<times> int) list" where
  "surrounding x y =
     [(uint y - 1, uint x - 1), (uint y - 1, uint x), (uint y - 1, uint x + 1),
      (uint y, uint x - 1), (uint y, uint x + 1),
      (uint y + 1, uint x - 1), (uint y + 1, uint x), (uint y + 1, uint x + 1)]"

definition in_grid :: "int \<times> int \<Rightarrow> bool" where
  "in_grid p \<longleftrightarrow> 0 \<le> snd p \<and> snd p < 13 \<and> 0 \<le> fst p \<and> fst p < 8"

definition inBoundsNeighbors :: "u8 \<Rightarrow> u8 \<Rightarrow> (int \<times> int) list" where
  "inBoundsNeighbors x y = filter in_grid (surrounding x y)"

definition cell :: "u8 list \<Rightarrow> int \<times> int \<Rightarrow> u8" where
  "cell g p = g ! grid_index (fst p) (snd p)"

definition is_corner :: "u8 \<Rightarrow> u8 \<Rightarrow> bool" where
  "is_corner x y \<longleftrightarrow> (uint x = 0 \<or> uint x = 12) \<and> (uint y = 0 \<or> uint y = 7)"

definition is_interior :: "u8 \<Rightarrow> u8 \<Rightarrow> bool" where
  "is_interior x y \<longleftrightarrow> 1 \<le> uint x \<and> uint x \<le> 11 \<and> 1 \<le> uint y \<and> uint y \<le> 6"

definition is_edge :: "u8 \<Rightarrow> u8 \<Rightarrow> bool" where
  "is_edge x y \<longleftrightarrow> uint x \<le> 12 \<and> uint y \<le> 7 \<and> \<not> is_corner x y \<and> \<not> is_interior x y"

text \<open>A grid whose upper four rows belong to cluster 1 and whose lower four to cluster 2.\<close>

definition striped_grid :: "u8 list" where
  "striped_grid = map (\<lambda>i. if i < 52 then 1 else 2) [0..<104]"

text \<open>
  The index a sampling step draws: \<^verbatim>\<open>pixelOffset + random(cluster.pixels)\<close> at draw \<open>k\<close>.
\<close>

definition drawn :: "rng \<Rightarrow> ClusterData \<Rightarrow> int \<Rightarrow> nat \<Rightarrow> int" where
  "drawn rnd cluster pixelOffset k = pixelOffset + arduino_random rnd k (pixels cluster)"

text \<open>
  The score both sampling loops compute for a logical index: the same-cluster neighbours
  minus the other-cluster neighbours of the position the index names.
\<close>

definition score_at :: "pm_state \<Rightarrow> ClusterData \<Rightarrow> int \<Rightarrow> int" where
  "score_at st cluster idx =
     (let pos = pixelIndices st ! nat idx in
      countClusterNeighbors (pixelClusterID st) (pos mod 13) (pos div 13) (clusterID cluster)
      - countOtherClusterNeighbors (pixelClusterID st) (pos mod 13) (pos div 13) (clusterID cluster))"

text \<open>
  The logical range of a cluster whose first index is \<open>pixelOffset\<close>.
\<close>

definition in_range :: "int \<Rightarrow> ClusterData \<Rightarrow> int \<Rightarrow> bool" where
  "in_range pixelOffset cluster idx \<longleftrightarrow> pixelOffset \<le> idx \<and> idx < pixelOffset + pixels cluster"

text \<open>
  Every entry of the pixel ordering names a position of the matrix.
\<close>

definition positions_ok :: "pm_state \<Rightarrow> bool" where
  "positions_ok st \<longleftrightarrow> (\<forall>p \<in> set (pixelIndices st). unat p < 104)"

text \<open>
  The timer test of the update loop: the cluster is skipped when it holds.
\<close>

definition not_due :: "u32 \<Rightarrow> pm_state \<Rightarrow> nat \<Rightarrow> bool" where
  "not_due currentTime st c \<longleftrightarrow>
     currentTime - lastUpdateTime st ! c < word_of_int (speed (clusters st ! c))"

text \<open>
  The assignment \<^verbatim>\<open>lastUpdateTime[c] = currentTime\<close>.
\<close>

definition stamp :: "u32 \<Rightarrow> nat \<Rightarrow> pm_state \<Rightarrow> pm_state" where
  "stamp currentTime c st = st\<lparr> lastUpdateTime := (lastUpdateTime st)[c := currentTime] \<rparr>"

text \<open>
  The value of \<^verbatim>\<open>pixelOffset\<close> when the loop reaches cluster \<open>c\<close>: the pixel counts of the
  clusters before it.
\<close>

definition offset :: "ClusterData list \<Rightarrow> nat \<Rightarrow> int" where
  "offset cs c = sum_list (map pixels (take c cs))"

text \<open>
  A sequence of calls of the update step by the host loop, each with its reading of the
  clock and its raw random values; the first out-of-bounds access ends it.
\<close>

fun updateCalls :: "(u32 \<times> rng) list \<Rightarrow> pm_state \<Rightarrow> error + pm_state" where
  "updateCalls [] st = Inr st"
| "updateCalls ((t, rnd) # rest) st =
     (case updatePortfolioPattern t rnd st of
        Inl e \<Rightarrow> Inl e
      | Inr st' \<Rightarrow> updateCalls rest st')"

text \<open>
  A state with one cluster of 104 pixels over a grid that holds two cluster ids, so that a
  swap exchanges two different grid values.
\<close>

definition mixed_state :: pm_state where
  "mixed_state =
     boot_state\<lparr> clusters := (clusters boot_state)[0 :=
                    \<lparr> clusterID = 1, pixels = 104, brightness = 180, clustering = 3,
                      speed = 10, symbol = ''AAPL'' \<rparr>],
                 numClusters := 1,
                 pixelClusterID := striped_grid \<rparr>"

text \<open>
  Raw random values that make the first sampling loop draw index 80 and the second 20.
\<close>

definition low_then_high :: rng where
  "low_then_high k = (if k < 4 then 80 else 20)"

text \<open>
  The empty configuration.
\<close>

definition empty_config :: string where
  "empty_config = ''[]''"

text \<open>
  No active cluster has a negative pixel count; the parser's clamp establishes it.
\<close>

definition pixels_nonneg :: "pm_state \<Rightarrow> bool" where
  "pixels_nonneg st \<longleftrightarrow> (\<forall>c < numClusters st. 0 \<le> pixels (clusters st ! c))"

text \<open>
  The pixel ordering is a permutation of the 104 positions of the matrix.
\<close>

definition is_permutation :: "u8 list \<Rightarrow> bool" where
  "is_permutation pI \<longleftrightarrow> length pI = 104 \<and> distinct pI \<and> (\<forall>p \<in> set pI. unat p < 104)"

text \<open>
  Every logical index of an active cluster's range names a grid cell that holds the byte
  stored for the cluster's id.
\<close>

definition cells_match :: "pm_state \<Rightarrow> bool" where
  "cells_match st \<longleftrightarrow>
     (\<forall>c < numClusters st. \<forall>i.
        in_range (offset (clusters st) c) (clusters st ! c) (int i) \<longrightarrow>
        pixelClusterID st ! unat (pixelIndices st ! i) = word_of_int (clusterID (clusters st ! c)))"

text \<open>
  The same in the words of the claim: the cell at column \<open>pixelIndices[i] mod 13\<close> and row
  \<open>pixelIndices[i] div 13\<close> holds the cluster's id.
\<close>

definition grid_consistent :: "pm_state \<Rightarrow> bool" where
  "grid_consistent st \<longleftrightarrow>
     (\<forall>c < numClusters st. \<forall>i.
        in_range (offset (clusters st) c) (clusters st ! c) (int i) \<longrightarrow>
        uint (pixelClusterID st ! grid_index (uint (pixelIndices st ! i div 13))
                                             (uint (pixelIndices st ! i mod 13)))
          = clusterID (clusters st ! c))"

text \<open>
  The cluster ids of the active clusters lie between 0 and 5.
\<close>

definition ids_ok :: "pm_state \<Rightarrow> bool" where
  "ids_ok st \<longleftrightarrow> (\<forall>c < numClusters st. 0 \<le> clusterID (clusters st ! c) \<and> clusterID (clusters st ! c) \<le> 5)"

text \<open>
  What a valid configuration establishes and every update call keeps.
\<close>

definition healthy :: "pm_state \<Rightarrow> bool" where
  "healthy st \<longleftrightarrow>
     wf_state st \<and> positions_ok st \<and> pixels_nonneg st \<and> totalPixels st \<le> 104 \<and> cells_match st"

text \<open>
  Raw random values that differ from draw to draw.
\<close>

definition spread :: rng where
  "spread k = 7 * k + 3"

text \<open>
  The \<open>n\<close> indices a sampling loop draws from draw \<open>k\<close> on.
\<close>

definition draws :: "rng \<Rightarrow> ClusterData \<Rightarrow> int \<Rightarrow> nat \<Rightarrow> nat \<Rightarrow> int list" where
  "draws rnd cluster pixelOffset k n = map (drawn rnd cluster pixelOffset) [k..<k + n]"

text \<open>
  \<open>r\<close> is the first element of \<open>ds\<close> whose score no element of \<open>ds\<close> exceeds.
\<close>

definition first_max :: "(int \<Rightarrow> int) \<Rightarrow> int list \<Rightarrow> int \<Rightarrow> bool" where
  "first_max f ds r \<longleftrightarrow> List.find (\<lambda>d. list_all (\<lambda>e. f e \<le> f d) ds) ds = Some r"

text \<open>
  The state \<open>mixed_state\<close> with timers left over from earlier updates.
\<close>

definition stale_state :: pm_state where
  "stale_state = mixed_state\<lparr> lastUpdateTime := [500, 500, 500, 0, 0, 0] \<rparr>"

text \<open>
  A configuration of three clusters that fill the matrix, and the state it produces from
  the freshly started sketch.
\<close>

definition short_config :: string where
  \<open>short_config = ''[{"cluster_id":1,"pixels":40,"clustering":3,"speed":100},{"cluster_id":2,"pixels":30,"clustering":2,"speed":50},{"cluster_id":0,"pixels":34,"speed":200}]''\<close>

definition valid_state :: pm_state where
  "valid_state =
     \<lparr> inPortfolioMode = True,
       clusters =
         [\<lparr> clusterID = 1, pixels = 40, brightness = 80, clustering = 3, speed = 100, symbol = [] \<rparr>,
          \<lparr> clusterID = 2, pixels = 30, brightness = 80, clustering = 2, speed = 50, symbol = [] \<rparr>,
          \<lparr> clusterID = 0, pixels = 34, brightness = 80, clustering = 1, speed = 200, symbol = [] \<rparr>,
          zero_cluster, zero_cluster, zero_cluster],
       numClusters = 3,
       pixelClusterID = replicate 40 1 @ replicate 30 2 @ replicate 34 0,
       pixelIndices = map of_nat [0..<104],
       lastUpdateTime = replicate 6 0 \<rparr>"

text \<open>
  Raw random values that are all 50.
\<close>

definition always_50 :: rng where
  "always_50 k = 50"

text \<open>
  The state \<open>setPortfolioMode\<close> produces from \<open>overrun_config\<close> on the freshly started
  sketch: both clusters keep their 60 pixels, and the second cluster's cells end where the
  matrix ends.
\<close>

definition overrun_state :: pm_state where
  "overrun_state =
     \<lparr> inPortfolioMode = True,
       clusters =
         [\<lparr> clusterID = 1, pixels = 60, brightness = 180, clustering = 3, speed = 100, symbol = ''AAPL'' \<rparr>,
          \<lparr> clusterID = 2, pixels = 60, brightness = 150, clustering = 2, speed = 50, symbol = ''MSFT'' \<rparr>,
          zero_cluster, zero_cluster, zero_cluster, zero_cluster],
       numClusters = 2,
       pixelClusterID = replicate 60 1 @ replicate 44 2,
       pixelIndices = map of_nat [0..<104],
       lastUpdateTime = replicate 6 0 \<rparr>"

text \<open>
  The state two update calls, at 60 ms and at 250 ms, produce from \<open>valid_state\<close>.
\<close>

definition after_250 :: pm_state where
  "after_250 =
     valid_state\<lparr> pixelIndices := (pixelIndices valid_state)
                    [41 := 57, 57 := 41, 5 := 17, 17 := 5, 53 := 67, 67 := 53, 76 := 90, 90 := 76],
                  lastUpdateTime := [250, 250, 250, 0, 0, 0] \<rparr>"

definition two_calls :: "(u32 \<times> rng) list" where
  "two_calls = [(60, spread), (250, spread)]"

section \<open>Properties of the parser\<close>

lemma parseCluster_fields:
  "0 \<le> pixels (parseCluster b)" "pixels (parseCluster b) \<le> 104"
  "1 \<le> clustering (parseCluster b)" "clustering (parseCluster b) \<le> 10"
  "10 \<le> speed (parseCluster b)" "speed (parseCluster b) \<le> 500"
  by (simp_all add: parseCluster_def Let_def constrain_def TOTAL_PIXELS_def)

text \<open>
  An induction rule for the parsing loop: either the loop stops at once, or it stores the
  cluster parsed from one object and goes on behind it. Which of the two happens depends
  on the text and the cluster count only.
\<close>

lemma parseLoop_induct2 [case_names stop step]:
  assumes stop: "\<And>pos st. (\<And>s. numClusters s = numClusters st \<Longrightarrow> parseLoop pos s = s) \<Longrightarrow> P pos st"
    and step: "\<And>pos st buf rest. numClusters st < MAX_CLUSTERS \<Longrightarrow>
        (\<And>s. numClusters s = numClusters st \<Longrightarrow>
           parseLoop pos s = parseLoop rest (storeCluster (parseCluster buf) s)) \<Longrightarrow>
        P rest (storeCluster (parseCluster buf) st) \<Longrightarrow> P pos st"
  shows "P pos st"
proof (induction pos st rule: parseLoop.induct)
  case (1 pos st)
  show ?case
  proof (cases "numClusters st < MAX_CLUSTERS")
    case False
    then show ?thesis by (intro stop) (simp add: parseLoop.simps)
  next
    case lt: True
    show ?thesis
    proof (cases "strchr pos (CHR 0x7B)")
      case None
      with lt show ?thesis by (intro stop) (simp add: parseLoop.simps)
    next
      case s1: (Some objStart)
      show ?thesis
      proof (cases "strchr objStart (CHR 0x7D)")
        case None
        with lt s1 show ?thesis by (intro stop) (simp add: parseLoop.simps)
      next
        case s2: (Some objEnd)
        define objLen where "objLen = length objStart - length objEnd + 1"
        show ?thesis
        proof (cases "objLen \<ge> 256")
          case True
          with lt s1 s2 show ?thesis
            by (intro stop) (simp add: parseLoop.simps objLen_def)
        next
          case False
          have eq: "parseLoop pos s = parseLoop (tl objEnd) (storeCluster (parseCluster (take objLen objStart)) s)"
            if "numClusters s = numClusters st" for s
            using lt s1 s2 False that
            by (subst parseLoop.simps) (simp add: objLen_def storeCluster_def Let_def)
          have "P (tl objEnd) (storeCluster (parseCluster (take objLen objStart)) st)"
            using "1.IH"[OF lt s1 s2 objLen_def False] by (simp add: storeCluster_def)
          with lt eq show ?thesis by (rule step)
        qed
      qed
    qed
  qed
qed

lemma parseLoop_other_fields:
  "inPortfolioMode (parseLoop pos st) = inPortfolioMode st \<and>
   pixelClusterID (parseLoop pos st) = pixelClusterID st \<and>
   pixelIndices (parseLoop pos st) = pixelIndices st \<and>
   lastUpdateTime (parseLoop pos st) = lastUpdateTime st \<and>
   length (clusters (parseLoop pos st)) = length (clusters st)"
  by (induction pos st rule: parseLoop_induct2) (simp_all add: storeCluster_def)

lemma parseLoop_numClusters:
  "numClusters st \<le> MAX_CLUSTERS \<Longrightarrow>
   numClusters st \<le> numClusters (parseLoop pos st) \<and> numClusters (parseLoop pos st) \<le> MAX_CLUSTERS"
  by (induction pos st rule: parseLoop_induct2) (simp_all add: storeCluster_def)

lemma parseLoop_below:
  "i < numClusters st \<Longrightarrow> clusters (parseLoop pos st) ! i = clusters st ! i"
  by (induction pos st rule: parseLoop_induct2) (simp_all add: storeCluster_def)

lemma parseLoop_parsed:
  "length (clusters st) = MAX_CLUSTERS \<Longrightarrow> numClusters st \<le> i \<Longrightarrow> i < numClusters (parseLoop pos st) \<Longrightarrow>
   \<exists>b. clusters (parseLoop pos st) ! i = parseCluster b"
proof (induction pos st rule: parseLoop_induct2)
  case (stop pos st)
  then show ?case by simp
next
  case (step pos st buf rest)
  show ?case
  proof (cases "i = numClusters st")
    case True
    have "clusters (parseLoop rest (storeCluster (parseCluster buf) st)) ! i
          = clusters (storeCluster (parseCluster buf) st) ! i"
      by (rule parseLoop_below) (simp add: storeCluster_def True)
    also have "\<dots> = parseCluster buf"
      using step.hyps(1) step.prems(1) by (simp add: storeCluster_def True)
    finally show ?thesis using step.hyps(2)[of st] by auto
  next
    case False
    with step.IH step.prems step.hyps(2)[of st] show ?thesis by (simp add: storeCluster_def)
  qed
qed

text \<open>Running the loop again over its own output writes the same clusters.\<close>

lemma parseLoop_again:
  "length (clusters st) = MAX_CLUSTERS \<Longrightarrow> numClusters st' = numClusters st \<Longrightarrow>
   clusters st' = clusters (parseLoop pos st) \<Longrightarrow>
   parseLoop pos st' = st'\<lparr> numClusters := numClusters (parseLoop pos st) \<rparr>"
proof (induction pos st arbitrary: st' rule: parseLoop_induct2)
  case (stop pos st)
  then show ?case by simp
next
  case (step pos st buf rest)
  let ?cd = "parseCluster buf"
  let ?S = "storeCluster ?cd st"
  have eq: "parseLoop pos st = parseLoop rest ?S"
    by (rule step.hyps(2)) simp
  have eq': "parseLoop pos st' = parseLoop rest (storeCluster ?cd st')"
    by (rule step.hyps(2)) (rule step.prems(2))
  have "clusters (parseLoop rest ?S) ! numClusters st = clusters ?S ! numClusters st"
    by (rule parseLoop_below) (simp add: storeCluster_def)
  also have "\<dots> = ?cd"
    using step.hyps(1) step.prems(1) by (simp add: storeCluster_def)
  finally have at: "clusters st' ! numClusters st = ?cd"
    using step.prems(3) eq by simp
  have "(clusters st')[numClusters st := ?cd] = clusters st'"
    using at list_update_id[of "clusters st'" "numClusters st"] by simp
  then have st'': "storeCluster ?cd st' = st'\<lparr> numClusters := numClusters st + 1 \<rparr>"
    using step.prems(2) by (simp add: storeCluster_def)
  have "parseLoop rest (storeCluster ?cd st')
        = (storeCluster ?cd st')\<lparr> numClusters := numClusters (parseLoop rest ?S) \<rparr>"
  proof (rule step.IH)
    show "length (clusters ?S) = MAX_CLUSTERS"
      using step.prems(1) by (simp add: storeCluster_def)
    show "numClusters (storeCluster ?cd st') = numClusters ?S"
      using step.prems(2) by (simp add: storeCluster_def)
    show "clusters (storeCluster ?cd st') = clusters (parseLoop rest ?S)"
      using step.prems(3) eq by (simp add: st'')
  qed
  then show ?case using eq eq' by (simp add: st'')
qed

text \<open>What \<open>parseClusterData\<close> leaves and what it establishes.\<close>

lemma parseClusterData_other_fields:
  "inPortfolioMode (parseClusterData json st) = inPortfolioMode st \<and>
   pixelClusterID (parseClusterData json st) = pixelClusterID st \<and>
   pixelIndices (parseClusterData json st) = pixelIndices st \<and>
   lastUpdateTime (parseClusterData json st) = lastUpdateTime st \<and>
   length (clusters (parseClusterData json st)) = length (clusters st)"
  by (simp add: parseClusterData_def Let_def parseLoop_other_fields split: option.splits)

lemma parseClusterData_numClusters:
  "numClusters (parseClusterData json st) \<le> MAX_CLUSTERS"
  using parseLoop_numClusters[of "st\<lparr> numClusters := 0 \<rparr>"]
  by (simp add: parseClusterData_def Let_def split: option.splits)

lemma parseClusterData_wf:
  "wf_state st \<Longrightarrow> wf_state (parseClusterData json st)"
  using parseClusterData_other_fields[of json st] parseClusterData_numClusters[of json st]
  by (simp add: wf_state_def)

lemma parseClusterData_parsed:
  assumes "length (clusters st) = MAX_CLUSTERS" and "i < numClusters (parseClusterData json st)"
  shows "\<exists>b. clusters (parseClusterData json st) ! i = parseCluster b"
proof (cases "strchr (c_str json) (CHR 0x5B)")
  case None
  with assms(2) show ?thesis by (simp add: parseClusterData_def)
next
  case (Some pos)
  with assms parseLoop_parsed[of "st\<lparr> numClusters := 0 \<rparr>" i "tl pos"] show ?thesis
    by (simp add: parseClusterData_def)
qed

lemma parseClusterData_again:
  assumes "length (clusters st) = MAX_CLUSTERS"
  shows "parseClusterData json (parseClusterData json st) = parseClusterData json st"
proof (cases "strchr (c_str json) (CHR 0x5B)")
  case None
  then show ?thesis by (simp add: parseClusterData_def)
next
  case (Some pos)
  let ?st0 = "st\<lparr> numClusters := 0 \<rparr>"
  let ?R = "parseLoop (tl pos) ?st0"
  have R: "parseClusterData json st = ?R"
    using Some by (simp add: parseClusterData_def)
  have "parseLoop (tl pos) (?R\<lparr> numClusters := 0 \<rparr>)
        = (?R\<lparr> numClusters := 0 \<rparr>)\<lparr> numClusters := numClusters ?R \<rparr>"
    by (rule parseLoop_again) (use assms in simp_all)
  then have "parseClusterData json ?R = ?R"
    using Some by (simp add: parseClusterData_def)
  then show ?thesis by (simp add: R)
qed

lemma sum_list_bounded:
  "\<forall>x \<in> set xs. (x::int) \<le> b \<Longrightarrow> sum_list xs \<le> b * int (length xs)"
  by (induction xs) (auto simp: algebra_simps)

section \<open>Claims about the parser\<close>

text \<open>
  C5. The claim: the stored brightness is the raw value clamped to the range 80..220, a
  raw 300 being stored as 220. The source casts the raw value to a byte before it clamps:
  300 becomes 44, which is clamped up to 80. Evaluated on a configuration whose
  brightness is 300: the raw value read is 300, the stored brightness is 80, and clamping
  the raw value would give 220.
\<close>

theorem brightness_300_stored_as_80:
  "extractInt (c_str bright_config) ''brightness'' = 300 \<and>
   numClusters (parseClusterData bright_config boot_state) = 1 \<and>
   uint (brightness (clusters (parseClusterData bright_config boot_state) ! 0)) = 80 \<and>
   constrain 300 80 220 = 220"
  by code_simp

text \<open>
  C2, as stated: after parsing, the pixel counts of the parsed clusters sum to at most
  104. Two clusters of 60 pixels are both accepted unchanged and sum to 120.
\<close>

theorem pixel_sum_counterexample:
  "\<not> totalPixels (parseClusterData overrun_config boot_state) \<le> 104"
  by code_simp

text \<open>
  C2, amended: after \<open>parseClusterData\<close> on any input string at most six clusters are
  parsed and the pixel count of each of them lies in the range 0..104, so that their sum
  is at most 104 times the number of parsed clusters, hence at most 624.
\<close>

theorem parsed_pixels_each_clamped:
  assumes "wf_state st"
  shows "numClusters (parseClusterData json st) \<le> 6 \<and>
         (\<forall>i < numClusters (parseClusterData json st).
            0 \<le> pixels (clusters (parseClusterData json st) ! i) \<and>
            pixels (clusters (parseClusterData json st) ! i) \<le> 104) \<and>
         totalPixels (parseClusterData json st) \<le> 104 * int (numClusters (parseClusterData json st)) \<and>
         totalPixels (parseClusterData json st) \<le> 624"
proof -
  let ?R = "parseClusterData json st"
  have len: "length (clusters st) = MAX_CLUSTERS"
    using assms by (simp add: wf_state_def)
  have n: "numClusters ?R \<le> 6"
    using parseClusterData_numClusters[of json st] by (simp add: MAX_CLUSTERS_def)
  have each: "0 \<le> pixels (clusters ?R ! i) \<and> pixels (clusters ?R ! i) \<le> 104"
    if "i < numClusters ?R" for i
    using parseClusterData_parsed[OF len that] parseCluster_fields(1,2) by auto
  have lenR: "numClusters ?R \<le> length (clusters ?R)"
    using parseClusterData_other_fields[of json st] len parseClusterData_numClusters[of json st]
    by simp
  have "\<forall>p \<in> set (map pixels (take (numClusters ?R) (clusters ?R))). p \<le> 104"
    using each lenR by (auto simp: in_set_conv_nth)
  then have "sum_list (map pixels (take (numClusters ?R) (clusters ?R)))
             \<le> 104 * int (length (map pixels (take (numClusters ?R) (clusters ?R))))"
    by (rule sum_list_bounded)
  then have sum: "totalPixels ?R \<le> 104 * int (numClusters ?R)"
    using lenR by (simp add: totalPixels_def)
  from n each sum show ?thesis by auto
qed

theorem parsed_pixels_each_clamped_witness:
  "wf_state boot_state \<and>
   numClusters (parseClusterData overrun_config boot_state) = 2 \<and>
   totalPixels (parseClusterData overrun_config boot_state) = 120 \<and>
   totalPixels (parseClusterData overrun_config boot_state) \<le> 624"
proof -
  have wf: "wf_state boot_state"
    by (simp add: wf_state_def boot_state_def MAX_CLUSTERS_def)
  have "numClusters (parseClusterData overrun_config boot_state) = 2"
    and "totalPixels (parseClusterData overrun_config boot_state) = 120"
    by code_simp+
  with wf parsed_pixels_each_clamped[OF wf, of overrun_config] show ?thesis by simp
qed

section \<open>Neighbour counts\<close>

lemma foldl_count:
  "foldl (\<lambda>c p. if Q p then c + 1 else c) a ps = a + int (length (filter Q ps))"
  by (induction ps arbitrary: a) simp_all

lemma surrounding_offsets:
  "surrounding x y = map (\<lambda>(dy, dx). (uint y + dy, uint x + dx)) neighbor_offsets"
  by (simp add: surrounding_def neighbor_offsets_def)

lemma countClusterNeighbors_filter:
  "countClusterNeighbors g x y cid =
   int (length (filter (\<lambda>p. uint (cell g p) = cid) (inBoundsNeighbors x y)))"
proof -
  let ?Q = "\<lambda>(dy, dx). in_grid (uint y + dy, uint x + dx) \<and> uint (cell g (uint y + dy, uint x + dx)) = cid"
  have "countClusterNeighbors g x y cid = foldl (\<lambda>c p. if ?Q p then c + 1 else c) 0 neighbor_offsets"
    unfolding countClusterNeighbors_def
    by (rule arg_cong[where f = "\<lambda>f. foldl f 0 neighbor_offsets"])
       (auto simp: fun_eq_iff Let_def in_grid_def cell_def MATRIX_WIDTH_def MATRIX_HEIGHT_def)
  also have "\<dots> = int (length (filter ?Q neighbor_offsets))"
    by (simp add: foldl_count)
  also have "filter ?Q neighbor_offsets
       = filter ((\<lambda>p. uint (cell g p) = cid) \<circ> (\<lambda>(dy, dx). (uint y + dy, uint x + dx)))
           (filter (in_grid \<circ> (\<lambda>(dy, dx). (uint y + dy, uint x + dx))) neighbor_offsets)"
    by (auto simp: comp_def intro!: filter_cong)
  finally show ?thesis
    by (simp add: inBoundsNeighbors_def surrounding_offsets filter_map)
qed

lemma countOtherClusterNeighbors_filter:
  "countOtherClusterNeighbors g x y cid =
   int (length (filter (\<lambda>p. cell g p \<noteq> 0 \<and> uint (cell g p) \<noteq> cid) (inBoundsNeighbors x y)))"
proof -
  let ?M = "\<lambda>p. cell g p \<noteq> 0 \<and> uint (cell g p) \<noteq> cid"
  let ?Q = "\<lambda>(dy, dx). in_grid (uint y + dy, uint x + dx) \<and> ?M (uint y + dy, uint x + dx)"
  have "countOtherClusterNeighbors g x y cid = foldl (\<lambda>c p. if ?Q p then c + 1 else c) 0 neighbor_offsets"
    unfolding countOtherClusterNeighbors_def
    by (rule arg_cong[where f = "\<lambda>f. foldl f 0 neighbor_offsets"])
       (auto simp: fun_eq_iff Let_def in_grid_def cell_def MATRIX_WIDTH_def MATRIX_HEIGHT_def)
  also have "\<dots> = int (length (filter ?Q neighbor_offsets))"
    by (simp add: foldl_count)
  also have "filter ?Q neighbor_offsets
       = filter (?M \<circ> (\<lambda>(dy, dx). (uint y + dy, uint x + dx)))
           (filter (in_grid \<circ> (\<lambda>(dy, dx). (uint y + dy, uint x + dx))) neighbor_offsets)"
    by (auto simp: comp_def intro!: filter_cong)
  finally show ?thesis
    by (simp add: inBoundsNeighbors_def surrounding_offsets filter_map)
qed

lemma inBounds_corner: "is_corner x y \<Longrightarrow> length (inBoundsNeighbors x y) = 3"
  by (auto simp: is_corner_def inBoundsNeighbors_def surrounding_def in_grid_def)

lemma inBounds_interior: "is_interior x y \<Longrightarrow> length (inBoundsNeighbors x y) = 8"
  by (simp add: is_interior_def inBoundsNeighbors_def surrounding_def in_grid_def)

lemma inBounds_edge: "is_edge x y \<Longrightarrow> length (inBoundsNeighbors x y) = 5"
proof -
  assume e: "is_edge x y"
  have x0: "0 \<le> uint x" and y0: "0 \<le> uint y" by simp_all
  from e consider
      "uint x = 0" "1 \<le> uint y" "uint y \<le> 6"
    | "uint x = 12" "1 \<le> uint y" "uint y \<le> 6"
    | "uint y = 0" "1 \<le> uint x" "uint x \<le> 11"
    | "uint y = 7" "1 \<le> uint x" "uint x \<le> 11"
    using x0 y0 unfolding is_edge_def is_corner_def is_interior_def by linarith
  then show ?thesis
    by cases (simp_all add: inBoundsNeighbors_def surrounding_def in_grid_def)
qed

lemma scores_bounded:
  "0 \<le> countClusterNeighbors g x y cid \<and> countClusterNeighbors g x y cid \<le> 8 \<and>
   0 \<le> countOtherClusterNeighbors g x y cid \<and> countOtherClusterNeighbors g x y cid \<le> 8"
proof -
  have "length (inBoundsNeighbors x y) \<le> length (surrounding x y)"
    unfolding inBoundsNeighbors_def by (rule length_filter_le)
  then have le8: "length (inBoundsNeighbors x y) \<le> 8" by (simp add: surrounding_def)
  have "length (filter P (inBoundsNeighbors x y)) \<le> 8" for P
    using le8 length_filter_le[of P "inBoundsNeighbors x y"] by linarith
  then show ?thesis
    by (simp add: countClusterNeighbors_filter countOtherClusterNeighbors_filter)
qed

text \<open>
  C10. Each of the two counts is the number of those cells among the in-bounds ones of
  the eight surrounding coordinates that hold a matching cluster id: a coordinate outside
  the matrix is counted by neither, and nothing wraps around. Hence, for every cluster id,
  either count is at most 3 at a corner, at most 5 at another edge cell and at most 8 in
  the interior.
\<close>

theorem neighbor_counts_in_bounds_only:
  "countClusterNeighbors g x y cid =
     int (length (filter (\<lambda>p. uint (cell g p) = cid) (inBoundsNeighbors x y))) \<and>
   countOtherClusterNeighbors g x y cid =
     int (length (filter (\<lambda>p. cell g p \<noteq> 0 \<and> uint (cell g p) \<noteq> cid) (inBoundsNeighbors x y))) \<and>
   (is_corner x y \<longrightarrow>
      countClusterNeighbors g x y cid \<le> 3 \<and> countOtherClusterNeighbors g x y cid \<le> 3) \<and>
   (is_edge x y \<longrightarrow>
      countClusterNeighbors g x y cid \<le> 5 \<and> countOtherClusterNeighbors g x y cid \<le> 5) \<and>
   (is_interior x y \<longrightarrow>
      countClusterNeighbors g x y cid \<le> 8 \<and> countOtherClusterNeighbors g x y cid \<le> 8)"
proof -
  have bnd: "int (length (filter P (inBoundsNeighbors x y))) \<le> int k"
    if "length (inBoundsNeighbors x y) = k" for P k
    using that length_filter_le[of P "inBoundsNeighbors x y"] by simp
  have c: "is_corner x y \<Longrightarrow> int (length (filter P (inBoundsNeighbors x y))) \<le> 3" for P
    using bnd[OF inBounds_corner, of P] by simp
  have e: "is_edge x y \<Longrightarrow> int (length (filter P (inBoundsNeighbors x y))) \<le> 5" for P
    using bnd[OF inBounds_edge, of P] by simp
  have i: "is_interior x y \<Longrightarrow> int (length (filter P (inBoundsNeighbors x y))) \<le> 8" for P
    using bnd[OF inBounds_interior, of P] by simp
  show ?thesis
    unfolding countClusterNeighbors_filter countOtherClusterNeighbors_filter
    by (intro conjI impI refl c e i)
qed

theorem neighbor_counts_witness:
  "is_corner 0 0 \<and> countClusterNeighbors striped_grid 0 0 1 = 3 \<and>
   is_edge 0 3 \<and> countClusterNeighbors striped_grid 0 3 1 \<le> 5 \<and>
   countClusterNeighbors striped_grid 0 3 1 = 3 \<and> countOtherClusterNeighbors striped_grid 0 3 1 = 2 \<and>
   is_interior 5 2 \<and> countClusterNeighbors striped_grid 5 2 1 = 8"
proof -
  have a: "is_corner 0 0" "is_edge 0 3" "is_interior 5 2"
    by (simp_all add: is_corner_def is_edge_def is_interior_def)
  have b: "countClusterNeighbors striped_grid 0 0 1 = 3"
    "countClusterNeighbors striped_grid 0 3 1 = 3"
    "countOtherClusterNeighbors striped_grid 0 3 1 = 2"
    "countClusterNeighbors striped_grid 5 2 1 = 8"
    by code_simp+
  show ?thesis
    using a b neighbor_counts_in_bounds_only[of striped_grid 0 3 1] by simp
qed

section \<open>The update step\<close>

lemma drawn_in_range:
  "0 < pixels cluster \<Longrightarrow> in_range off cluster (drawn rnd cluster off k)"
  by (simp add: drawn_def arduino_random_def in_range_def nat_less_iff zmod_int)

lemma isolatedBody_eq:
  "isolatedBody st rnd cluster off (k, b, w) =
     (let idx = drawn rnd cluster off k in
      if idx < 0 \<or> TOTAL_PIXELS \<le> idx then Inl (PixelIndexOutOfBounds idx)
      else if score_at st cluster idx > w then Inr (k + 1, idx, score_at st cluster idx)
      else Inr (k + 1, b, w))"
  by (simp add: isolatedBody_def drawn_def score_at_def Let_def)

lemma targetBody_eq: "targetBody = isolatedBody"
  by (auto simp: fun_eq_iff targetBody_def isolatedBody_def Let_def)

lemma targetLoop_eq: "targetLoop n st rnd cluster off s = isolatedLoop n st rnd cluster off s"
  by (induction n arbitrary: s) (auto simp: targetBody_eq split: sum.splits)

lemma isolatedLoop_in_range:
  "isolatedLoop n st rnd cluster off (k, b, w) = Inr (k', b', w') \<Longrightarrow>
   0 < pixels cluster \<Longrightarrow> in_range off cluster b \<Longrightarrow>
   in_range off cluster b' \<and> k' = k + n"
proof (induction n arbitrary: k b w)
  case 0
  then show ?case by simp
next
  case (Suc n)
  from Suc.prems(1) obtain k1 b1 w1 where
    body: "isolatedBody st rnd cluster off (k, b, w) = Inr (k1, b1, w1)"
    and rest: "isolatedLoop n st rnd cluster off (k1, b1, w1) = Inr (k', b', w')"
    by (auto split: sum.splits)
  from body have "k1 = k + 1" and "b1 = b \<or> b1 = drawn rnd cluster off k"
    by (auto simp: isolatedBody_eq Let_def split: if_splits)
  with Suc.prems(2,3) have "in_range off cluster b1"
    using drawn_in_range[of cluster off rnd k] by auto
  from Suc.IH[OF rest Suc.prems(2) this] \<open>k1 = k + 1\<close> show ?case by simp
qed

lemma isolatedLoop_total:
  assumes "0 < pixels cluster" "0 \<le> off" "off + pixels cluster \<le> TOTAL_PIXELS"
  shows "\<exists>r. isolatedLoop n st rnd cluster off (k, b, w) = Inr r"
proof (induction n arbitrary: k b w)
  case 0
  then show ?case by simp
next
  case (Suc n)
  have "in_range off cluster (drawn rnd cluster off k)"
    using assms(1) by (rule drawn_in_range)
  with assms have "\<not> (drawn rnd cluster off k < 0 \<or> TOTAL_PIXELS \<le> drawn rnd cluster off k)"
    by (simp add: in_range_def)
  then have "\<exists>r. isolatedBody st rnd cluster off (k, b, w) = Inr r"
    by (simp add: isolatedBody_eq Let_def)
  then obtain k1 b1 w1 where "isolatedBody st rnd cluster off (k, b, w) = Inr (k1, b1, w1)"
    by (metis prod_cases3)
  with Suc.IH[of k1 b1 w1] show ?case by simp
qed

lemma uint_div13: fixes p :: u8 shows "uint (p div 13) = uint p div 13"
  by (simp add: uint_div_distrib)

lemma uint_mod13: fixes p :: u8 shows "uint (p mod 13) = uint p mod 13"
  by (simp add: uint_mod_distrib)

lemma grid_index_pos:
  fixes p :: u8
  shows "grid_index (uint (p div 13)) (uint (p mod 13)) = unat p"
proof -
  have "uint p div 13 * 13 + uint p mod 13 = uint p" by simp
  then show ?thesis
    unfolding grid_index_def MATRIX_WIDTH_def uint_div13 uint_mod13 by simp
qed

lemma row_in_grid:
  fixes p :: u8
  shows "uint (p div 13) < MATRIX_HEIGHT \<longleftrightarrow> unat p < 104"
proof -
  have "uint p div 13 < 8 \<longleftrightarrow> uint p < 104" by linarith
  also have "\<dots> \<longleftrightarrow> unat p < 104" using uint_nat[of p] by linarith
  finally show ?thesis unfolding MATRIX_HEIGHT_def uint_div13 .
qed

lemma swapPixels_same: "swapPixels a a st = Inr st"
  by (simp add: swapPixels_def)

lemma swapPixels_eq:
  assumes "a \<noteq> b" "0 \<le> a" "a < 104" "0 \<le> b" "b < 104" "length (pixelIndices st) = 104"
  shows "swapPixels a b st =
     (let pa = pixelIndices st ! nat a; pb = pixelIndices st ! nat b in
      if \<not> unat pb < 104 then Inl (GridOutOfBounds (uint (pb div 13)) (uint (pb mod 13)))
      else if \<not> unat pa < 104 then Inl (GridOutOfBounds (uint (pa div 13)) (uint (pa mod 13)))
      else Inr (st\<lparr> pixelIndices := (pixelIndices st)[nat a := pb, nat b := pa],
                    pixelClusterID := (pixelClusterID st)[unat pb := pixelClusterID st ! unat pa,
                                                           unat pa := pixelClusterID st ! unat pb] \<rparr>))"
proof -
  have ne: "nat a \<noteq> nat b" using assms by simp
  have la: "nat a < length (pixelIndices st)" and lb: "nat b < length (pixelIndices st)"
    using assms by simp_all
  have 1: "(pixelIndices st)[nat a := pixelIndices st ! nat b, nat b := pixelIndices st ! nat a] ! nat a
           = pixelIndices st ! nat b"
    using ne la lb by simp
  have 2: "(pixelIndices st)[nat a := pixelIndices st ! nat b, nat b := pixelIndices st ! nat a] ! nat b
           = pixelIndices st ! nat a"
    using ne la lb by simp
  show ?thesis
    unfolding swapPixels_def Let_def 1 2 grid_index_pos row_in_grid TOTAL_PIXELS_def
    using assms(1-5) by simp
qed

lemma swapPixels_bounds:
  assumes "swapPixels a b st = Inr st'" "a \<noteq> b"
  shows "0 \<le> a \<and> a < 104 \<and> 0 \<le> b \<and> b < 104"
  using assms by (simp add: swapPixels_def TOTAL_PIXELS_def split: if_splits)

lemma swapPixels_frame:
  assumes "swapPixels a b st = Inr st'"
  shows "clusters st' = clusters st \<and> numClusters st' = numClusters st \<and>
         lastUpdateTime st' = lastUpdateTime st \<and> inPortfolioMode st' = inPortfolioMode st \<and>
         length (pixelIndices st') = length (pixelIndices st) \<and>
         length (pixelClusterID st') = length (pixelClusterID st)"
  using assms by (auto simp: swapPixels_def Let_def split: if_splits)

lemma swapPixels_outside:
  assumes "swapPixels a b st = Inr st'" "i \<noteq> nat a" "i \<noteq> nat b"
  shows "pixelIndices st' ! i = pixelIndices st ! i"
  using assms by (auto simp: swapPixels_def Let_def split: if_splits)

lemma swapPixels_mset:
  assumes "swapPixels a b st = Inr st'"
    and "length (pixelIndices st) = 104" and "length (pixelClusterID st) = 104"
  shows "mset (pixelIndices st') = mset (pixelIndices st) \<and>
         mset (pixelClusterID st') = mset (pixelClusterID st)"
proof (cases "a = b")
  case True
  with assms(1) show ?thesis by (simp add: swapPixels_same)
next
  case False
  from swapPixels_bounds[OF assms(1) False]
  have b: "0 \<le> a" "a < 104" "0 \<le> b" "b < 104" by simp_all
  let ?pa = "pixelIndices st ! nat a" and ?pb = "pixelIndices st ! nat b"
  from assms(1) have ok: "unat ?pa < 104" "unat ?pb < 104"
    and st': "st' = st\<lparr> pixelIndices := (pixelIndices st)[nat a := ?pb, nat b := ?pa],
                    pixelClusterID := (pixelClusterID st)[unat ?pb := pixelClusterID st ! unat ?pa,
                                                           unat ?pa := pixelClusterID st ! unat ?pb] \<rparr>"
    unfolding swapPixels_eq[OF False b assms(2)] Let_def by (auto split: if_splits)
  have "mset ((pixelIndices st)[nat a := ?pb, nat b := ?pa]) = mset (pixelIndices st)"
    by (rule mset_swap) (use b assms(2) in simp_all)
  moreover have "mset ((pixelClusterID st)[unat ?pb := pixelClusterID st ! unat ?pa,
                         unat ?pa := pixelClusterID st ! unat ?pb]) = mset (pixelClusterID st)"
    by (rule mset_swap) (use ok assms(3) in simp_all)
  ultimately show ?thesis by (simp add: st')
qed

lemma swapPixels_total:
  assumes "0 \<le> a" "a < 104" "0 \<le> b" "b < 104"
    and "length (pixelIndices st) = 104" and "positions_ok st"
  shows "\<exists>st'. swapPixels a b st = Inr st'"
proof (cases "a = b")
  case True
  then show ?thesis by (simp add: swapPixels_same)
next
  case False
  have "pixelIndices st ! nat a \<in> set (pixelIndices st)" "pixelIndices st ! nat b \<in> set (pixelIndices st)"
    using assms(1-5) by simp_all
  then have "unat (pixelIndices st ! nat a) < 104" "unat (pixelIndices st ! nat b) < 104"
    using assms(6) by (simp_all add: positions_ok_def)
  then show ?thesis
    unfolding swapPixels_eq[OF False assms(1-5)] Let_def by simp
qed

lemma clusterStep_cases [consumes 1, case_names skip empty swap]:
  assumes "clusterStep t rnd c (off, k, st) = Inr (off', k', st')"
  obtains
    (skip) "not_due t st c" "st' = st" "k' = k" "off' = off + pixels (clusters st ! c)"
  | (empty) "\<not> not_due t st c" "pixels (clusters st ! c) = 0" "st' = stamp t c st" "k' = k" "off' = off"
  | (swap) a b where "\<not> not_due t st c" "pixels (clusters st ! c) \<noteq> 0"
      "swapPixels a b (stamp t c st) = Inr st'" "off' = off + pixels (clusters st ! c)"
      "0 < pixels (clusters st ! c) \<longrightarrow>
         in_range off (clusters st ! c) a \<and> in_range off (clusters st ! c) b"
proof (cases "not_due t st c")
  case True
  with assms show ?thesis
    by (intro skip) (auto simp: clusterStep_def not_due_def Let_def)
next
  case due: False
  show ?thesis
  proof (cases "pixels (clusters st ! c) = 0")
    case True
    with assms due show ?thesis
      by (intro empty) (auto simp: clusterStep_def not_due_def stamp_def Let_def)
  next
    case nz: False
    let ?cl = "clusters st ! c"
    let ?st1 = "stamp t c st"
    let ?n = "nat (clustering ?cl)"
    from assms due nz obtain k1 a w1 k2 b w2 where
      l1: "isolatedLoop ?n ?st1 rnd ?cl off (k + 1, drawn rnd ?cl off k, - 100) = Inr (k1, a, w1)"
      and l2: "isolatedLoop ?n ?st1 rnd ?cl off (k1 + 1, drawn rnd ?cl off k1, - 100) = Inr (k2, b, w2)"
      and sw: "swapPixels a b ?st1 = Inr st'" and off': "off' = off + pixels ?cl"
      by (auto simp: clusterStep_def not_due_def stamp_def Let_def targetLoop_eq drawn_def
               split: sum.splits)
    have "in_range off ?cl a \<and> in_range off ?cl b" if pos: "0 < pixels ?cl"
      using isolatedLoop_in_range[OF l1 pos drawn_in_range[OF pos]]
            isolatedLoop_in_range[OF l2 pos drawn_in_range[OF pos]] by simp
    with due nz sw off' show ?thesis by (intro swap) blast+
  qed
qed

lemma offset_0: "offset cs 0 = 0"
  by (simp add: offset_def)

lemma offset_Suc: "c < length cs \<Longrightarrow> offset cs (Suc c) = offset cs c + pixels (cs ! c)"
  by (simp add: offset_def take_Suc_conv_app_nth)

lemma updateLoop_rule:
  assumes "updateLoop t rnd [c..<n] (off, k, st) = Inr (off', k', st')"
    and "I c off st"
    and "\<And>j off k st off1 k1 st1. c \<le> j \<Longrightarrow> j < n \<Longrightarrow> I j off st \<Longrightarrow>
           clusterStep t rnd j (off, k, st) = Inr (off1, k1, st1) \<Longrightarrow> I (Suc j) off1 st1"
    and "c \<le> n"
  shows "I n off' st'"
  using assms
proof (induction "n - c" arbitrary: c off k st)
  case 0
  then show ?case by simp
next
  case (Suc m)
  then have lt: "c < n" by simp
  from Suc.prems(1) lt obtain off1 k1 st1 where
    s1: "clusterStep t rnd c (off, k, st) = Inr (off1, k1, st1)"
    and r1: "updateLoop t rnd [Suc c..<n] (off1, k1, st1) = Inr (off', k', st')"
    by (auto simp: upt_conv_Cons split: sum.splits)
  have I1: "I (Suc c) off1 st1"
    using Suc.prems(3)[OF _ lt Suc.prems(2) s1] by simp
  show ?case
  proof (rule Suc.hyps(1)[OF _ r1 I1])
    show "m = n - Suc c" using Suc.hyps(2) by simp
    show "Suc c \<le> n" using lt by simp
    fix j off k st off1 k1 st1
    assume "Suc c \<le> j" "j < n" "I j off st" "clusterStep t rnd j (off, k, st) = Inr (off1, k1, st1)"
    then show "I (Suc j) off1 st1"
      using Suc.prems(3)[of j off st k off1 k1 st1] by simp
  qed
qed

lemma updateLoop_total_rule:
  assumes "I c off st"
    and "\<And>j off k st. c \<le> j \<Longrightarrow> j < n \<Longrightarrow> I j off st \<Longrightarrow>
           \<exists>off1 k1 st1. clusterStep t rnd j (off, k, st) = Inr (off1, k1, st1) \<and> I (Suc j) off1 st1"
    and "c \<le> n"
  shows "\<exists>off' k' st'. updateLoop t rnd [c..<n] (off, k, st) = Inr (off', k', st') \<and> I n off' st'"
  using assms
proof (induction "n - c" arbitrary: c off k st)
  case 0
  then show ?case by simp
next
  case (Suc m)
  then have lt: "c < n" by simp
  from Suc.prems(2)[OF _ lt Suc.prems(1), of k] obtain off1 k1 st1 where
    s1: "clusterStep t rnd c (off, k, st) = Inr (off1, k1, st1)" and I1: "I (Suc c) off1 st1"
    by auto
  have "\<exists>off' k' st'. updateLoop t rnd [Suc c..<n] (off1, k1, st1) = Inr (off', k', st') \<and> I n off' st'"
  proof (rule Suc.hyps(1)[OF _ I1])
    show "m = n - Suc c" using Suc.hyps(2) by simp
    show "Suc c \<le> n" using lt by simp
    fix j off k st
    assume "Suc c \<le> j" "j < n" "I j off st"
    then show "\<exists>off1 k1 st1. clusterStep t rnd j (off, k, st) = Inr (off1, k1, st1) \<and> I (Suc j) off1 st1"
      using Suc.prems(2)[of j off st k] by simp
  qed
  then show ?case using s1 lt by (auto simp: upt_conv_Cons)
qed

lemma stamp_fields:
  "clusters (stamp t c st) = clusters st" "numClusters (stamp t c st) = numClusters st"
  "inPortfolioMode (stamp t c st) = inPortfolioMode st"
  "pixelIndices (stamp t c st) = pixelIndices st" "pixelClusterID (stamp t c st) = pixelClusterID st"
  "lastUpdateTime (stamp t c st) = (lastUpdateTime st)[c := t]"
  by (simp_all add: stamp_def)

lemma clusterStep_frame:
  assumes "clusterStep t rnd c (off, k, st) = Inr (off', k', st')"
  shows "clusters st' = clusters st \<and> numClusters st' = numClusters st \<and>
         inPortfolioMode st' = inPortfolioMode st \<and>
         length (pixelIndices st') = length (pixelIndices st) \<and>
         length (pixelClusterID st') = length (pixelClusterID st) \<and>
         lastUpdateTime st' = (if not_due t st c then lastUpdateTime st else (lastUpdateTime st)[c := t]) \<and>
         off' = off + pixels (clusters st ! c)"
  using assms
proof (cases rule: clusterStep_cases)
  case skip
  then show ?thesis by simp
next
  case empty
  then show ?thesis by (simp add: stamp_fields)
next
  case (swap a b)
  with swapPixels_frame[OF swap(3)] show ?thesis by (simp add: stamp_fields)
qed

lemma clusterStep_wf:
  assumes "clusterStep t rnd c (off, k, st) = Inr (off', k', st')" "wf_state st"
  shows "wf_state st'"
  using clusterStep_frame[OF assms(1)] assms(2) by (auto simp: wf_state_def)

lemma clusterStep_mset:
  assumes "clusterStep t rnd c (off, k, st) = Inr (off', k', st')" "wf_state st"
  shows "mset (pixelIndices st') = mset (pixelIndices st) \<and>
         mset (pixelClusterID st') = mset (pixelClusterID st)"
  using assms(1)
proof (cases rule: clusterStep_cases)
  case skip
  then show ?thesis by simp
next
  case empty
  then show ?thesis by (simp add: stamp_fields)
next
  case (swap a b)
  from swapPixels_mset[OF swap(3)] assms(2) show ?thesis
    by (simp add: stamp_fields wf_state_def)
qed

lemma updateLoop_frame:
  assumes "updateLoop t rnd [c..<n] (off, k, st) = Inr (off', k', st')" "wf_state st" "c \<le> n"
  shows "wf_state st' \<and> clusters st' = clusters st \<and> numClusters st' = numClusters st \<and>
         inPortfolioMode st' = inPortfolioMode st \<and>
         mset (pixelIndices st') = mset (pixelIndices st) \<and>
         mset (pixelClusterID st') = mset (pixelClusterID st)"
proof -
  let ?I = "\<lambda>(j::nat) (off::int) s. wf_state s \<and> clusters s = clusters st \<and> numClusters s = numClusters st \<and>
         inPortfolioMode s = inPortfolioMode st \<and>
         mset (pixelIndices s) = mset (pixelIndices st) \<and>
         mset (pixelClusterID s) = mset (pixelClusterID st)"
  have "?I n off' st'"
  proof (rule updateLoop_rule[where I = ?I, OF assms(1) _ _ assms(3)])
    show "?I c off st" using assms(2) by simp
    fix j off k s off1 k1 s1
    assume "?I j off s" and step: "clusterStep t rnd j (off, k, s) = Inr (off1, k1, s1)"
    then show "?I (Suc j) off1 s1"
      using clusterStep_frame[OF step] clusterStep_wf[OF step] clusterStep_mset[OF step] by simp
  qed
  then show ?thesis .
qed

lemma updatePortfolioPattern_frame:
  assumes "updatePortfolioPattern t rnd st = Inr st'" "wf_state st"
  shows "wf_state st' \<and> clusters st' = clusters st \<and> numClusters st' = numClusters st \<and>
         inPortfolioMode st' = inPortfolioMode st \<and>
         mset (pixelIndices st') = mset (pixelIndices st) \<and>
         mset (pixelClusterID st') = mset (pixelClusterID st)"
proof -
  from assms(1) obtain off' k' where
    "updateLoop t rnd [0..<numClusters st] (0, 0, st) = Inr (off', k', st')"
    by (auto simp: updatePortfolioPattern_def split: sum.splits)
  from updateLoop_frame[OF this assms(2)] show ?thesis by simp
qed

text \<open>
  Where a call of \<open>updatePortfolioPattern\<close> makes no out-of-bounds access, it leaves the
  multiset of the cluster ids stored in the 104 grid cells unchanged, so the number of
  cells holding any given id \<open>v\<close> is the same before and after.
\<close>

lemma update_keeps_grid_multiset:
  assumes "wf_state st" and "updatePortfolioPattern t rnd st = Inr st'"
  shows "mset (pixelClusterID st') = mset (pixelClusterID st) \<and>
         count_list (pixelClusterID st') v = count_list (pixelClusterID st) v"
proof -
  have m: "mset (pixelClusterID st') = mset (pixelClusterID st)"
    using updatePortfolioPattern_frame[OF assms(2,1)] by simp
  have "count_list (pixelClusterID st') v = count_list (pixelClusterID st) v"
    by (metis m count_mset)
  with m show ?thesis by simp
qed

lemma mixed_state_wf: "wf_state mixed_state"
  by (simp add: wf_state_def mixed_state_def boot_state_def striped_grid_def MAX_CLUSTERS_def)

lemma mixed_state_run:
  "\<not> isl (updatePortfolioPattern 10 low_then_high mixed_state) \<and>
   pixelClusterID mixed_state ! 20 = 1 \<and>
   pixelClusterID (projr (updatePortfolioPattern 10 low_then_high mixed_state)) ! 20 = 2 \<and>
   count_list (pixelClusterID mixed_state) 1 = 52"
  by code_simp

lemma update_keeps_grid_multiset_example:
  "wf_state mixed_state \<and>
   \<not> isl (updatePortfolioPattern 10 low_then_high mixed_state) \<and>
   pixelClusterID mixed_state ! 20 = 1 \<and>
   pixelClusterID (projr (updatePortfolioPattern 10 low_then_high mixed_state)) ! 20 = 2 \<and>
   count_list (pixelClusterID (projr (updatePortfolioPattern 10 low_then_high mixed_state))) 1 = 52"
proof -
  have "updatePortfolioPattern 10 low_then_high mixed_state
        = Inr (projr (updatePortfolioPattern 10 low_then_high mixed_state))"
    using mixed_state_run by simp
  from update_keeps_grid_multiset[OF mixed_state_wf this, of 1] mixed_state_run mixed_state_wf
  show ?thesis by simp
qed

lemma updatePortfolioPattern_no_clusters:
  "numClusters st = 0 \<Longrightarrow> updatePortfolioPattern t rnd st = Inr st"
  by (simp add: updatePortfolioPattern_def)

lemma updateCalls_no_clusters:
  "numClusters st = 0 \<Longrightarrow> updateCalls calls st = Inr st"
  by (induction calls) (auto simp: updatePortfolioPattern_no_clusters)

text \<open>
  C7. When parsing yields no cluster, \<open>setPortfolioMode\<close> returns with the mode inactive
  and the grid, the pixel ordering and the timers as they were, and every later call of
  the update step, alone or in sequence, returns the state unchanged.
\<close>

theorem zero_clusters_inactive_and_idle:
  assumes "numClusters (parseClusterData json st) = 0"
  shows "\<exists>st1. setPortfolioMode json st = Inr st1 \<and>
           \<not> inPortfolioMode st1 \<and>
           pixelClusterID st1 = pixelClusterID st \<and>
           pixelIndices st1 = pixelIndices st \<and>
           lastUpdateTime st1 = lastUpdateTime st \<and>
           updatePortfolioPattern t rnd st1 = Inr st1 \<and>
           updateCalls calls st1 = Inr st1"
proof -
  let ?st1 = "(parseClusterData json st)\<lparr> inPortfolioMode := False \<rparr>"
  have set: "setPortfolioMode json st = Inr ?st1"
    using assms by (simp add: setPortfolioMode_def Let_def)
  have n: "numClusters ?st1 = 0" using assms by simp
  show ?thesis
    using set parseClusterData_other_fields[of json st]
      updatePortfolioPattern_no_clusters[OF n] updateCalls_no_clusters[OF n]
    by simp
qed

theorem zero_clusters_witness:
  "numClusters (parseClusterData empty_config mixed_state) = 0 \<and>
   setPortfolioMode empty_config mixed_state
     = Inr (mixed_state\<lparr> numClusters := 0, inPortfolioMode := False \<rparr>) \<and>
   updateCalls [(10, low_then_high), (500, low_then_high)]
       (mixed_state\<lparr> numClusters := 0, inPortfolioMode := False \<rparr>)
     = Inr (mixed_state\<lparr> numClusters := 0, inPortfolioMode := False \<rparr>)"
proof -
  have n: "numClusters (parseClusterData empty_config mixed_state) = 0"
    by code_simp
  have s: "setPortfolioMode empty_config mixed_state
     = Inr (mixed_state\<lparr> numClusters := 0, inPortfolioMode := False \<rparr>)"
    by code_simp
  from zero_clusters_inactive_and_idle[OF n, of 10 low_then_high
      "[(10, low_then_high), (500, low_then_high)]"]
  obtain st1 where a: "setPortfolioMode empty_config mixed_state = Inr st1"
    and b: "updateCalls [(10, low_then_high), (500, low_then_high)] st1 = Inr st1"
    by blast
  from a s have "st1 = mixed_state\<lparr> numClusters := 0, inPortfolioMode := False \<rparr>"
    by simp
  with b n s show ?thesis by (simp del: updateCalls.simps)
qed

lemma parseClusterData_rerun:
  assumes "length (clusters st) = MAX_CLUSTERS"
    and "clusters s' = clusters (parseClusterData json st)"
  shows "parseClusterData json s' = s'\<lparr> numClusters := numClusters (parseClusterData json st) \<rparr>"
proof (cases "strchr (c_str json) (CHR 0x5B)")
  case None
  then show ?thesis by (simp add: parseClusterData_def)
next
  case (Some pos)
  have R: "parseClusterData json st = parseLoop (tl pos) (st\<lparr> numClusters := 0 \<rparr>)"
    using Some by (simp add: parseClusterData_def)
  have "parseLoop (tl pos) (s'\<lparr> numClusters := 0 \<rparr>)
        = (s'\<lparr> numClusters := 0 \<rparr>)\<lparr> numClusters := numClusters (parseLoop (tl pos) (st\<lparr> numClusters := 0 \<rparr>)) \<rparr>"
    by (rule parseLoop_again) (use assms R in simp_all)
  then show ?thesis
    using Some by (simp add: parseClusterData_def R)
qed

text \<open>Applying the same input a second time, right after the first, gives the same state.\<close>

lemma setPortfolioMode_again:
  assumes "wf_state st" and "setPortfolioMode json st = Inr st1"
  shows "setPortfolioMode json st1 = Inr st1"
proof -
  let ?P = "parseClusterData json st"
  have len: "length (clusters st) = MAX_CLUSTERS"
    using assms(1) by (simp add: wf_state_def)
  show ?thesis
  proof (cases "numClusters ?P = 0")
    case True
    with assms(2) have st1: "st1 = ?P\<lparr> inPortfolioMode := False \<rparr>"
      by (simp add: setPortfolioMode_def Let_def)
    have "parseClusterData json st1 = st1\<lparr> numClusters := numClusters ?P \<rparr>"
      by (rule parseClusterData_rerun[OF len]) (simp add: st1)
    then have "parseClusterData json st1 = st1" by (simp add: st1)
    then show ?thesis
      using True by (simp add: setPortfolioMode_def Let_def st1)
  next
    case False
    with assms(2) obtain pixelIdx g where
      a: "assignClusters (clusters ?P) (pixelIndices ?P) [0..<numClusters ?P] (0, replicate 104 0)
          = Inr (pixelIdx, g)"
      and st1: "st1 = ?P\<lparr> pixelClusterID := g, lastUpdateTime := replicate MAX_CLUSTERS 0,
                           inPortfolioMode := True \<rparr>"
      by (auto simp: setPortfolioMode_def Let_def split: sum.splits)
    have "parseClusterData json st1 = st1\<lparr> numClusters := numClusters ?P \<rparr>"
      by (rule parseClusterData_rerun[OF len]) (simp add: st1)
    then have p: "parseClusterData json st1 = st1" by (simp add: st1)
    have "setPortfolioMode json st1 = Inr st1"
      using False a by (simp add: setPortfolioMode_def Let_def p) (simp add: st1)
    then show ?thesis .
  qed
qed

section \<open>Timer gating and locality of the update step\<close>

lemma clusterStep_local:
  assumes "clusterStep t rnd c (off, k, st) = Inr (off', k', st')"
    and "0 \<le> pixels (clusters st ! c)"
    and "pixelIndices st' ! i \<noteq> pixelIndices st ! i"
  shows "\<not> not_due t st c \<and> in_range off (clusters st ! c) (int i)"
  using assms(1)
proof (cases rule: clusterStep_cases)
  case skip
  with assms(3) show ?thesis by simp
next
  case empty
  with assms(3) show ?thesis by (simp add: stamp_fields)
next
  case (swap a b)
  show ?thesis
  proof (cases "a = b")
    case True
    with swap(3) have "st' = stamp t c st" by (simp add: swapPixels_same)
    with assms(3) show ?thesis by (simp add: stamp_fields)
  next
    case False
    from swapPixels_bounds[OF swap(3) False] have nn: "0 \<le> a" "0 \<le> b" by simp_all
    have "i = nat a \<or> i = nat b"
      using swapPixels_outside[OF swap(3), of i] assms(3) by (auto simp: stamp_fields)
    then have "int i = a \<or> int i = b" using nn by auto
    moreover have "in_range off (clusters st ! c) a \<and> in_range off (clusters st ! c) b"
      using swap(2,5) assms(2) by simp
    ultimately show ?thesis using swap(1) by auto
  qed
qed

lemma not_due_cong:
  "clusters s = clusters st \<Longrightarrow> lastUpdateTime s ! c = lastUpdateTime st ! c \<Longrightarrow>
   not_due t s c = not_due t st c"
  by (simp add: not_due_def)

lemma offset_mono:
  assumes "\<forall>c<n. 0 \<le> pixels (cs ! c)" "j \<le> n" "n \<le> length cs" "i \<le> j"
  shows "offset cs i \<le> offset cs j"
  using assms(4,2)
proof (induction j)
  case 0
  then show ?case by simp
next
  case (Suc j)
  show ?case
  proof (cases "i = Suc j")
    case True
    then show ?thesis by simp
  next
    case False
    with Suc have "offset cs i \<le> offset cs j" by simp
    moreover have "offset cs (Suc j) = offset cs j + pixels (cs ! j)"
      using Suc.prems assms(3) by (simp add: offset_Suc)
    moreover have "0 \<le> pixels (cs ! j)" using assms(1) Suc.prems by simp
    ultimately show ?thesis by simp
  qed
qed

lemma ranges_disjoint:
  assumes "\<forall>c<n. 0 \<le> pixels (cs ! c)" "n \<le> length cs" "j < n" "j' < n" "j \<noteq> j'"
    and "in_range (offset cs j) (cs ! j) x" "in_range (offset cs j') (cs ! j') x"
  shows False
proof -
  have le: "offset cs (Suc a) \<le> offset cs b" if "a < b" "b < n" for a b
    using offset_mono[OF assms(1) _ assms(2), of b "Suc a"] that by simp
  have suc: "offset cs (Suc a) = offset cs a + pixels (cs ! a)" if "a < n" for a
    using that assms(2) by (simp add: offset_Suc)
  from assms(5) consider "j < j'" | "j' < j" by linarith
  then show False
  proof cases
    case 1
    from le[OF 1 assms(4)] suc[OF assms(3)] assms(6,7) show False by (simp add: in_range_def)
  next
    case 2
    from le[OF 2 assms(3)] suc[OF assms(4)] assms(6,7) show False by (simp add: in_range_def)
  qed
qed

lemma updateLoop_timers_ranges:
  assumes run: "updateLoop t rnd [0..<n] (0, k, st) = Inr (off', k', st')"
    and wf: "wf_state st" and n: "n \<le> numClusters st" and nonneg: "pixels_nonneg st"
  shows "(\<forall>i<n. lastUpdateTime st' ! i = (if not_due t st i then lastUpdateTime st ! i else t)) \<and>
         (\<forall>i. pixelIndices st' ! i \<noteq> pixelIndices st ! i \<longrightarrow>
              (\<exists>j<n. \<not> not_due t st j \<and> in_range (offset (clusters st) j) (clusters st ! j) (int i)))"
proof -
  let ?cs = "clusters st"
  let ?I = "\<lambda>j off s. clusters s = ?cs \<and> off = offset ?cs j \<and>
      length (lastUpdateTime s) = length (lastUpdateTime st) \<and>
      (\<forall>i. lastUpdateTime s ! i = (if i < j \<and> \<not> not_due t st i then t else lastUpdateTime st ! i)) \<and>
      (\<forall>i. pixelIndices s ! i \<noteq> pixelIndices st ! i \<longrightarrow>
           (\<exists>j'<j. \<not> not_due t st j' \<and> in_range (offset ?cs j') (?cs ! j') (int i)))"
  have len: "n \<le> length ?cs" "n \<le> length (lastUpdateTime st)"
    using wf n by (simp_all add: wf_state_def)
  have "?I n off' st'"
  proof (rule updateLoop_rule[where I = ?I, OF run])
    show "?I 0 0 st" by (simp add: offset_0)
    show "0 \<le> n" by simp
    fix j off k s off1 k1 s1
    assume j: "j < n" and I: "?I j off s"
      and step: "clusterStep t rnd j (off, k, s) = Inr (off1, k1, s1)"
    note fr = clusterStep_frame[OF step]
    have cs: "clusters s = ?cs" and off: "off = offset ?cs j" using I by simp_all
    have nd: "not_due t s j = not_due t st j"
      by (rule not_due_cong) (use I in simp_all)
    have px: "0 \<le> pixels (clusters s ! j)"
      using nonneg j n by (simp add: cs pixels_nonneg_def)
    have jl: "j < length (lastUpdateTime s)" using I j len by simp
    have 1: "clusters s1 = ?cs" using fr cs by simp
    have 2: "off1 = offset ?cs (Suc j)"
      using fr cs off j len by (simp add: offset_Suc)
    have 3: "length (lastUpdateTime s1) = length (lastUpdateTime st)"
      using fr I by auto
    have 4: "lastUpdateTime s1 ! i = (if i < Suc j \<and> \<not> not_due t st i then t else lastUpdateTime st ! i)" for i
    proof (cases "i = j")
      case True
      then show ?thesis using fr nd I jl by auto
    next
      case False
      then have "lastUpdateTime s1 ! i = lastUpdateTime s ! i" using fr by auto
      with False I show ?thesis by (auto simp: less_Suc_eq)
    qed
    have 5: "\<exists>j'<Suc j. \<not> not_due t st j' \<and> in_range (offset ?cs j') (?cs ! j') (int i)"
      if ne: "pixelIndices s1 ! i \<noteq> pixelIndices st ! i" for i
    proof (cases "pixelIndices s ! i \<noteq> pixelIndices st ! i")
      case True
      with I obtain j' where "j' < j" "\<not> not_due t st j'" "in_range (offset ?cs j') (?cs ! j') (int i)"
        by blast
      then show ?thesis using less_SucI by blast
    next
      case False
      with ne have "pixelIndices s1 ! i \<noteq> pixelIndices s ! i" by simp
      from clusterStep_local[OF step px this]
      have "\<not> not_due t st j \<and> in_range (offset ?cs j) (?cs ! j) (int i)"
        by (simp add: nd cs off)
      then show ?thesis by blast
    qed
    show "?I (Suc j) off1 s1"
      using 1 2 3 4 5 by blast
  qed
  then show ?thesis by simp
qed

text \<open>
  In a call of the update step that makes no out-of-bounds access, a cluster that is not
  due keeps its timer and every entry of its logical range of the pixel ordering, a due
  cluster has its timer set to the current time, the iteration of a cluster that is not
  due returns the loop state as it was but for the offset, and the iteration of a due
  cluster stores the current time whatever else it does. Whether a cluster is due is
  decided by the state at the start of the call.
\<close>

lemma skipped_clusters_untouched:
  assumes "wf_state st" and "pixels_nonneg st"
    and "updatePortfolioPattern t rnd st = Inr st'"
    and "c < numClusters st"
  shows "(not_due t st c \<longrightarrow>
            lastUpdateTime st' ! c = lastUpdateTime st ! c \<and>
            (\<forall>i. in_range (offset (clusters st) c) (clusters st ! c) (int i) \<longrightarrow>
                 pixelIndices st' ! i = pixelIndices st ! i)) \<and>
         (\<not> not_due t st c \<longrightarrow> lastUpdateTime st' ! c = t) \<and>
         (\<forall>off k s. not_due t s c \<longrightarrow>
            clusterStep t rnd c (off, k, s) = Inr (off + pixels (clusters s ! c), k, s)) \<and>
         (\<forall>off k s off1 k1 s1. \<not> not_due t s c \<and> clusterStep t rnd c (off, k, s) = Inr (off1, k1, s1) \<longrightarrow>
            lastUpdateTime s1 = (lastUpdateTime s)[c := t])"
proof -
  from assms(3) obtain off' k' where
    run: "updateLoop t rnd [0..<numClusters st] (0, 0, st) = Inr (off', k', st')"
    by (auto simp: updatePortfolioPattern_def split: sum.splits)
  note L = updateLoop_timers_ranges[OF run assms(1) order_refl assms(2)]
  have len: "numClusters st \<le> length (clusters st)"
    using assms(1) by (simp add: wf_state_def)
  have a: "lastUpdateTime st' ! c = (if not_due t st c then lastUpdateTime st ! c else t)"
    using L assms(4) by blast
  have b: "pixelIndices st' ! i = pixelIndices st ! i"
    if nd: "not_due t st c" and r: "in_range (offset (clusters st) c) (clusters st ! c) (int i)" for i
  proof (rule ccontr)
    assume "pixelIndices st' ! i \<noteq> pixelIndices st ! i"
    with L obtain j where j: "j < numClusters st" "\<not> not_due t st j"
      "in_range (offset (clusters st) j) (clusters st ! j) (int i)" by blast
    with nd have "j \<noteq> c" by auto
    from ranges_disjoint[OF assms(2)[unfolded pixels_nonneg_def] len j(1) assms(4) this j(3) r]
    show False .
  qed
  have c: "clusterStep t rnd c (off, k, s) = Inr (off + pixels (clusters s ! c), k, s)"
    if "not_due t s c" for off k s
    using that by (simp add: clusterStep_def not_due_def Let_def)
  have d: "lastUpdateTime s1 = (lastUpdateTime s)[c := t]"
    if "\<not> not_due t s c" "clusterStep t rnd c (off, k, s) = Inr (off1, k1, s1)" for off k s off1 k1 s1
    using clusterStep_frame[OF that(2)] that(1) by simp
  from a b c d show ?thesis by (intro conjI impI allI) auto
qed

section \<open>The grid follows the pixel ordering\<close>

lemma assignPixels_length:
  "assignPixels m cid pI (p, g) = Inr (p', g') \<Longrightarrow> length g' = length g"
proof (induction m arbitrary: p g)
  case 0
  then show ?case by simp
next
  case (Suc m)
  then show ?case
    by (auto simp: Let_def split: if_splits)
qed

lemma assignClusters_length:
  "assignClusters cs pI js (p, g) = Inr (p', g') \<Longrightarrow> length g' = length g"
proof (induction js arbitrary: p g)
  case Nil
  then show ?case by simp
next
  case (Cons j js)
  from Cons.prems obtain p1 g1 where
    a: "assignPixels (nat (pixels (cs ! j))) (clusterID (cs ! j)) pI (p, g) = Inr (p1, g1)"
    and b: "assignClusters cs pI js (p1, g1) = Inr (p', g')"
    by (auto split: sum.splits)
  from Cons.IH[OF b] assignPixels_length[OF a] show ?case by simp
qed

lemma assignPixels_writes:
  assumes perm: "is_permutation pI" and "length g = 104" and "p + m \<le> 104"
  shows "\<exists>g'. assignPixels m cid pI (p, g) = Inr (p + m, g') \<and>
           (\<forall>i. p \<le> i \<and> i < p + m \<longrightarrow> g' ! unat (pI ! i) = word_of_int cid) \<and>
           (\<forall>i < 104. \<not> (p \<le> i \<and> i < p + m) \<longrightarrow> g' ! unat (pI ! i) = g ! unat (pI ! i))"
  using assms(2,3)
proof (induction m arbitrary: p g)
  case 0
  then show ?case by auto
next
  case (Suc m)
  let ?pos = "pI ! p"
  let ?g1 = "g[unat ?pos := word_of_int cid]"
  have p: "p < 104" using Suc.prems by simp
  have lenp: "length pI = 104" and dist: "distinct pI"
    using perm by (simp_all add: is_permutation_def)
  have pos: "unat ?pos < 104"
    using perm p by (simp add: is_permutation_def)
  have unfold: "assignPixels (Suc m) cid pI (p, g) = assignPixels m cid pI (Suc p, ?g1)"
    using p pos by (simp add: Let_def TOTAL_PIXELS_def row_in_grid grid_index_pos)
  from Suc.IH[of ?g1 "Suc p"] Suc.prems obtain g' where
    r: "assignPixels m cid pI (Suc p, ?g1) = Inr (Suc p + m, g')"
    and w: "\<And>i. Suc p \<le> i \<and> i < Suc p + m \<Longrightarrow> g' ! unat (pI ! i) = word_of_int cid"
    and f: "\<And>i. i < 104 \<Longrightarrow> \<not> (Suc p \<le> i \<and> i < Suc p + m) \<Longrightarrow> g' ! unat (pI ! i) = ?g1 ! unat (pI ! i)"
    by auto
  have ne: "unat (pI ! i) \<noteq> unat ?pos" if "i < 104" "i \<noteq> p" for i
  proof -
    have "pI ! i \<noteq> pI ! p"
      using that p dist lenp by (simp add: nth_eq_iff_index_eq)
    then show ?thesis by (simp add: word_unat_eq_iff)
  qed
  have "g' ! unat ?pos = word_of_int cid"
    using f[of p] p pos Suc.prems(1) by simp
  then have W: "g' ! unat (pI ! i) = word_of_int cid" if "p \<le> i \<and> i < p + Suc m" for i
    using that w[of i] by (cases "i = p") auto
  have F: "g' ! unat (pI ! i) = g ! unat (pI ! i)" if "i < 104" "\<not> (p \<le> i \<and> i < p + Suc m)" for i
  proof -
    have "i \<noteq> p" using that by auto
    then have "?g1 ! unat (pI ! i) = g ! unat (pI ! i)"
      using ne[OF that(1)] by simp
    moreover have "g' ! unat (pI ! i) = ?g1 ! unat (pI ! i)"
      using f[OF that(1)] that(2) by auto
    ultimately show ?thesis by simp
  qed
  show ?case
    using unfold r W F by auto
qed

lemma offset_nonneg:
  assumes "\<forall>c<n. 0 \<le> pixels (cs ! c)" "j \<le> n" "n \<le> length cs"
  shows "0 \<le> offset cs j"
  using offset_mono[OF assms, of 0] by (simp add: offset_0)

lemma assignClusters_writes:
  assumes perm: "is_permutation pI" and nonneg: "\<forall>j<n. 0 \<le> pixels (cs ! j)"
    and tot: "offset cs n \<le> 104" and n: "n \<le> length cs"
  shows "c \<le> n \<Longrightarrow> length g = 104 \<Longrightarrow>
         \<exists>p' g'. assignClusters cs pI [c..<n] (nat (offset cs c), g) = Inr (p', g') \<and>
           (\<forall>j. c \<le> j \<and> j < n \<longrightarrow> (\<forall>i. in_range (offset cs j) (cs ! j) (int i) \<longrightarrow>
                g' ! unat (pI ! i) = word_of_int (clusterID (cs ! j)))) \<and>
           (\<forall>i < 104. int i < offset cs c \<longrightarrow> g' ! unat (pI ! i) = g ! unat (pI ! i))"
proof (induction "n - c" arbitrary: c g)
  case 0
  then show ?case by auto
next
  case (Suc m)
  then have lt: "c < n" by simp
  let ?p = "nat (offset cs c)"
  let ?m = "nat (pixels (cs ! c))"
  have o0: "0 \<le> offset cs c"
    using offset_nonneg[OF nonneg _ n, of c] lt by simp
  have px: "0 \<le> pixels (cs ! c)" using nonneg lt by simp
  have oS: "offset cs (Suc c) = offset cs c + pixels (cs ! c)"
    using lt n by (simp add: offset_Suc)
  have "offset cs (Suc c) \<le> offset cs n"
    using offset_mono[OF nonneg _ n, of n "Suc c"] lt by simp
  with tot oS have le104: "offset cs c + pixels (cs ! c) \<le> 104" by simp
  have pm: "?p + ?m = nat (offset cs (Suc c))"
    using o0 px oS by (simp add: nat_add_distrib)
  have "?p + ?m \<le> 104" using le104 o0 px by linarith
  from assignPixels_writes[OF perm Suc.prems(2) this, of "clusterID (cs ! c)"] obtain g1 where
    a: "assignPixels ?m (clusterID (cs ! c)) pI (?p, g) = Inr (?p + ?m, g1)"
    and w1: "\<And>i. ?p \<le> i \<and> i < ?p + ?m \<Longrightarrow> g1 ! unat (pI ! i) = word_of_int (clusterID (cs ! c))"
    and f1: "\<And>i. i < 104 \<Longrightarrow> \<not> (?p \<le> i \<and> i < ?p + ?m) \<Longrightarrow> g1 ! unat (pI ! i) = g ! unat (pI ! i)"
    by auto
  have l1: "length g1 = 104"
    using assignPixels_length[OF a] Suc.prems(2) by simp
  have mm: "m = n - Suc c" using Suc.hyps(2) by simp
  have sle: "Suc c \<le> n" using lt by simp
  from Suc.hyps(1)[OF mm sle l1] obtain p' g' where
    r: "assignClusters cs pI [Suc c..<n] (nat (offset cs (Suc c)), g1) = Inr (p', g')"
    and w2: "\<And>j i. Suc c \<le> j \<and> j < n \<Longrightarrow> in_range (offset cs j) (cs ! j) (int i) \<Longrightarrow>
                g' ! unat (pI ! i) = word_of_int (clusterID (cs ! j))"
    and f2: "\<And>i. i < 104 \<Longrightarrow> int i < offset cs (Suc c) \<Longrightarrow> g' ! unat (pI ! i) = g1 ! unat (pI ! i)"
    by blast
  have run: "assignClusters cs pI [c..<n] (?p, g) = Inr (p', g')"
    using lt a r by (simp add: upt_conv_Cons pm)
  have W: "g' ! unat (pI ! i) = word_of_int (clusterID (cs ! j))"
    if "c \<le> j \<and> j < n" "in_range (offset cs j) (cs ! j) (int i)" for j i
  proof (cases "j = c")
    case True
    from that(2) True have rng: "offset cs c \<le> int i" "int i < offset cs c + pixels (cs ! c)"
      by (simp_all add: in_range_def)
    then have i104: "i < 104" using le104 by linarith
    have "?p \<le> i \<and> i < ?p + ?m" using rng o0 px by linarith
    from w1[OF this] f2[OF i104] rng oS True show ?thesis by simp
  next
    case False
    with that show ?thesis using w2[of j i] by simp
  qed
  have F: "g' ! unat (pI ! i) = g ! unat (pI ! i)" if "i < 104" "int i < offset cs c" for i
  proof -
    have "int i < offset cs (Suc c)" using that(2) oS px by simp
    from f2[OF that(1) this] have "g' ! unat (pI ! i) = g1 ! unat (pI ! i)" .
    moreover have "\<not> (?p \<le> i \<and> i < ?p + ?m)" using that(2) o0 by linarith
    ultimately show ?thesis using f1[OF that(1)] by simp
  qed
  from run W F show ?case by blast
qed

lemma totalPixels_offset: "totalPixels st = offset (clusters st) (numClusters st)"
  by (simp add: totalPixels_def offset_def)

lemma setPortfolioMode_cases:
  assumes "setPortfolioMode json st = Inr st1"
  obtains (none) "numClusters (parseClusterData json st) = 0"
      "st1 = (parseClusterData json st)\<lparr> inPortfolioMode := False \<rparr>"
  | (some) pixelIdx g where "numClusters (parseClusterData json st) \<noteq> 0"
      "assignClusters (clusters (parseClusterData json st)) (pixelIndices (parseClusterData json st))
           [0..<numClusters (parseClusterData json st)] (0, replicate 104 0) = Inr (pixelIdx, g)"
      "st1 = (parseClusterData json st)\<lparr> pixelClusterID := g,
               lastUpdateTime := replicate MAX_CLUSTERS 0, inPortfolioMode := True \<rparr>"
proof (cases "numClusters (parseClusterData json st) = 0")
  case True
  with assms show ?thesis by (intro none) (auto simp: setPortfolioMode_def Let_def)
next
  case False
  with assms obtain pixelIdx g where
    "assignClusters (clusters (parseClusterData json st)) (pixelIndices (parseClusterData json st))
           [0..<numClusters (parseClusterData json st)] (0, replicate 104 0) = Inr (pixelIdx, g)"
    "st1 = (parseClusterData json st)\<lparr> pixelClusterID := g,
               lastUpdateTime := replicate MAX_CLUSTERS 0, inPortfolioMode := True \<rparr>"
    by (auto simp: setPortfolioMode_def Let_def split: sum.splits)
  with False show ?thesis by (intro some) auto
qed

lemma parseClusterData_nonneg:
  assumes "wf_state st"
  shows "pixels_nonneg (parseClusterData json st)"
  unfolding pixels_nonneg_def
proof (intro allI impI)
  fix c assume "c < numClusters (parseClusterData json st)"
  from parseClusterData_parsed[OF _ this] assms
  obtain b where "clusters (parseClusterData json st) ! c = parseCluster b"
    by (auto simp: wf_state_def)
  then show "0 \<le> pixels (clusters (parseClusterData json st) ! c)"
    by (simp add: parseCluster_fields(1))
qed

lemma setPortfolioMode_wf:
  assumes "setPortfolioMode json st = Inr st1" "wf_state st"
  shows "wf_state st1 \<and> pixels_nonneg st1 \<and> pixelIndices st1 = pixelIndices st \<and>
         clusters st1 = clusters (parseClusterData json st) \<and>
         numClusters st1 = numClusters (parseClusterData json st)"
  using assms(1)
proof (cases rule: setPortfolioMode_cases)
  case none
  with parseClusterData_wf[OF assms(2), of json] parseClusterData_nonneg[OF assms(2), of json]
    parseClusterData_other_fields[of json st]
  show ?thesis by (simp add: wf_state_def pixels_nonneg_def)
next
  case (some pixelIdx g)
  from assignClusters_length[OF some(2)] have "length g = 104" by simp
  with some parseClusterData_wf[OF assms(2), of json] parseClusterData_nonneg[OF assms(2), of json]
    parseClusterData_other_fields[of json st]
  show ?thesis by (simp add: wf_state_def pixels_nonneg_def MAX_CLUSTERS_def)
qed

lemma byte_holds_id:
  fixes w :: u8
  assumes "0 \<le> cid" "cid \<le> 5"
  shows "uint w = cid \<longleftrightarrow> w = word_of_int cid"
proof
  assume "uint w = cid"
  then show "w = word_of_int cid" by auto
next
  assume "w = word_of_int cid"
  then have "uint w = take_bit 8 cid" by (simp add: uint_word_of_int_eq)
  also have "\<dots> = cid"
    using assms by (simp add: take_bit_int_eq_self)
  finally show "uint w = cid" .
qed

lemma grid_consistent_iff:
  assumes "ids_ok st"
  shows "grid_consistent st \<longleftrightarrow> cells_match st"
  unfolding grid_consistent_def cells_match_def grid_index_pos
  using assms by (auto simp: ids_ok_def byte_holds_id)

lemma setPortfolioMode_cells_match:
  assumes set: "setPortfolioMode json st = Inr st1" and wf: "wf_state st"
    and perm: "is_permutation (pixelIndices st)"
    and tot: "totalPixels (parseClusterData json st) \<le> 104"
  shows "cells_match st1"
  using set
proof (cases rule: setPortfolioMode_cases)
  case none
  then show ?thesis by (simp add: cells_match_def)
next
  case (some pixelIdx g)
  let ?P = "parseClusterData json st"
  have nonneg: "\<forall>j<numClusters ?P. 0 \<le> pixels (clusters ?P ! j)"
    using parseClusterData_nonneg[OF wf, of json] by (simp add: pixels_nonneg_def)
  have n: "numClusters ?P \<le> length (clusters ?P)"
    using parseClusterData_wf[OF wf, of json] by (simp add: wf_state_def)
  have pI: "pixelIndices ?P = pixelIndices st"
    using parseClusterData_other_fields[of json st] by simp
  from assignClusters_writes[OF perm nonneg tot[unfolded totalPixels_offset] n, of 0 "replicate 104 0"]
  obtain p' g' where
    r: "assignClusters (clusters ?P) (pixelIndices st) [0..<numClusters ?P] (0, replicate 104 0) = Inr (p', g')"
    and w: "\<And>j i. j < numClusters ?P \<Longrightarrow> in_range (offset (clusters ?P) j) (clusters ?P ! j) (int i) \<Longrightarrow>
              g' ! unat (pixelIndices st ! i) = word_of_int (clusterID (clusters ?P ! j))"
    by (auto simp: offset_0)
  from r some(2) have "g' = g" by (simp add: pI)
  with w some(3) pI show ?thesis by (simp add: cells_match_def)
qed

lemma positions_ok_stamp: "positions_ok (stamp t c st) = positions_ok st"
  by (simp add: positions_ok_def stamp_fields)

lemma clusterStep_total:
  assumes "length (pixelIndices st) = 104" "positions_ok st"
    and "0 \<le> off" "0 \<le> pixels (clusters st ! c)" "off + pixels (clusters st ! c) \<le> 104"
  shows "\<exists>off' k' st'. clusterStep t rnd c (off, k, st) = Inr (off', k', st')"
proof (cases "not_due t st c \<or> pixels (clusters st ! c) = 0")
  case True
  then show ?thesis by (auto simp: clusterStep_def not_due_def Let_def)
next
  case False
  let ?cl = "clusters st ! c"
  let ?st1 = "stamp t c st"
  let ?n = "nat (clustering ?cl)"
  have pos: "0 < pixels ?cl" using False assms(4) by simp
  have le: "off + pixels ?cl \<le> TOTAL_PIXELS" using assms(5) by (simp add: TOTAL_PIXELS_def)
  from isolatedLoop_total[OF pos assms(3) le, of ?n ?st1 rnd "k + 1" "drawn rnd ?cl off k" "- 100"]
  obtain k1 a w1 where
    l1: "isolatedLoop ?n ?st1 rnd ?cl off (k + 1, drawn rnd ?cl off k, - 100) = Inr (k1, a, w1)"
    by (metis prod_cases3)
  from isolatedLoop_total[OF pos assms(3) le, of ?n ?st1 rnd "k1 + 1" "drawn rnd ?cl off k1" "- 100"]
  obtain k2 b w2 where
    l2: "isolatedLoop ?n ?st1 rnd ?cl off (k1 + 1, drawn rnd ?cl off k1, - 100) = Inr (k2, b, w2)"
    by (metis prod_cases3)
  have ra: "in_range off ?cl a"
    using isolatedLoop_in_range[OF l1 pos drawn_in_range[OF pos]] by simp
  have rb: "in_range off ?cl b"
    using isolatedLoop_in_range[OF l2 pos drawn_in_range[OF pos]] by simp
  have "\<exists>st'. swapPixels a b ?st1 = Inr st'"
    by (rule swapPixels_total)
       (use ra rb assms in \<open>simp_all add: in_range_def stamp_fields positions_ok_stamp\<close>)
  then obtain st' where sw: "swapPixels a b ?st1 = Inr st'" by blast
  have "clusterStep t rnd c (off, k, st) = Inr (off + pixels ?cl, k2, st')"
    using False l1 l2 sw
    by (simp add: clusterStep_def not_due_def Let_def targetLoop_eq drawn_def stamp_def)
  then show ?thesis by blast
qed

lemma clusterStep_cells_match:
  assumes step: "clusterStep t rnd c (off, k, st) = Inr (off', k', st')"
    and cm: "cells_match st" and c: "c < numClusters st" and off: "off = offset (clusters st) c"
    and len: "length (pixelIndices st) = 104" and px: "0 \<le> pixels (clusters st ! c)"
  shows "cells_match st'"
  using step
proof (cases rule: clusterStep_cases)
  case skip
  with cm show ?thesis by simp
next
  case empty
  with cm show ?thesis by (simp add: cells_match_def stamp_fields)
next
  case (swap a b)
  let ?s = "stamp t c st"
  let ?g = "pixelClusterID st"
  let ?pI = "pixelIndices st"
  have cms: "cells_match ?s" using cm by (simp add: cells_match_def stamp_fields)
  show ?thesis
  proof (cases "a = b")
    case True
    with swap(3) cms show ?thesis by (simp add: swapPixels_same)
  next
    case False
    from swapPixels_bounds[OF swap(3) False]
    have b: "0 \<le> a" "a < 104" "0 \<le> b" "b < 104" by simp_all
    let ?pa = "?pI ! nat a" and ?pb = "?pI ! nat b"
    have lens: "length (pixelIndices ?s) = 104" using len by (simp add: stamp_fields)
    from swap(3) have st': "st' = ?s\<lparr> pixelIndices := ?pI[nat a := ?pb, nat b := ?pa],
                    pixelClusterID := ?g[unat ?pb := ?g ! unat ?pa, unat ?pa := ?g ! unat ?pb] \<rparr>"
      unfolding swapPixels_eq[OF False b lens] Let_def stamp_fields by (auto split: if_splits)
    have rng: "in_range off (clusters st ! c) a" "in_range off (clusters st ! c) b"
      using swap(2,5) px by simp_all
    have ia: "in_range (offset (clusters st) c) (clusters st ! c) (int (nat a))"
      and ib: "in_range (offset (clusters st) c) (clusters st ! c) (int (nat b))"
      using rng b off by simp_all
    let ?id = "word_of_int (clusterID (clusters st ! c)) :: u8"
    have ga: "?g ! unat ?pa = ?id" and gb: "?g ! unat ?pb = ?id"
      using cm c ia ib unfolding cells_match_def by blast+
    have grid: "?g[unat ?pb := ?g ! unat ?pa, unat ?pa := ?g ! unat ?pb] = ?g"
      by (simp add: ga) (metis ga gb list_update_id)
    have st'2: "st' = ?s\<lparr> pixelIndices := ?pI[nat a := ?pb, nat b := ?pa], pixelClusterID := ?g \<rparr>"
      using st' grid by simp
    have "pixelClusterID st' ! unat (pixelIndices st' ! i) = word_of_int (clusterID (clusters st ! c'))"
      if c': "c' < numClusters st" and r: "in_range (offset (clusters st) c') (clusters st ! c') (int i)"
      for c' i
    proof -
      have old: "?g ! unat (?pI ! i) = word_of_int (clusterID (clusters st ! c'))"
        using cm c' r unfolding cells_match_def by blast
      have la: "nat a < length ?pI" and lb: "nat b < length ?pI" using b len by simp_all
      consider "i = nat b" | "i \<noteq> nat b" "i = nat a" | "i \<noteq> nat b" "i \<noteq> nat a" by blast
      then show ?thesis
      proof cases
        case 1
        then have "pixelIndices st' ! i = ?pa" using lb by (simp add: st'2)
        moreover have "word_of_int (clusterID (clusters st ! c')) = ?id"
          using old 1 gb by simp
        moreover have "pixelClusterID st' = ?g" by (simp add: st'2)
        ultimately show ?thesis using ga by simp
      next
        case 2
        then have "pixelIndices st' ! i = ?pb" using la by (simp add: st'2)
        moreover have "word_of_int (clusterID (clusters st ! c')) = ?id"
          using old 2 ga by simp
        moreover have "pixelClusterID st' = ?g" by (simp add: st'2)
        ultimately show ?thesis using gb by simp
      next
        case 3
        then have "pixelIndices st' ! i = ?pI ! i" by (simp add: st'2)
        moreover have "pixelClusterID st' = ?g" by (simp add: st'2)
        ultimately show ?thesis using old by simp
      qed
    qed
    then show ?thesis
      by (simp add: cells_match_def st'2 stamp_fields)
  qed
qed

lemma clusterStep_healthy:
  assumes h: "healthy st" and c: "c < numClusters st" and off: "off = offset (clusters st) c"
  shows "\<exists>off1 k1 st1. clusterStep t rnd c (off, k, st) = Inr (off1, k1, st1) \<and> healthy st1 \<and>
           clusters st1 = clusters st \<and> numClusters st1 = numClusters st \<and>
           off1 = offset (clusters st) (Suc c)"
proof -
  let ?cs = "clusters st"
  have wf: "wf_state st" and pos: "positions_ok st" and nn: "pixels_nonneg st"
    and tot: "totalPixels st \<le> 104" and cm: "cells_match st"
    using h by (simp_all add: healthy_def)
  have len: "numClusters st \<le> length ?cs" and lpI: "length (pixelIndices st) = 104"
    using wf by (simp_all add: wf_state_def)
  have nn': "\<forall>j<numClusters st. 0 \<le> pixels (?cs ! j)"
    using nn by (simp add: pixels_nonneg_def)
  have px: "0 \<le> pixels (?cs ! c)" using nn' c by simp
  have o0: "0 \<le> off"
    using offset_nonneg[OF nn' _ len, of c] c off by simp
  have oS: "offset ?cs (Suc c) = off + pixels (?cs ! c)"
    using c len off by (simp add: offset_Suc)
  have "offset ?cs (Suc c) \<le> offset ?cs (numClusters st)"
    using offset_mono[OF nn' _ len, of "numClusters st" "Suc c"] c by simp
  with tot oS have le: "off + pixels (?cs ! c) \<le> 104"
    by (simp add: totalPixels_offset)
  from clusterStep_total[OF lpI pos o0 px le, of t rnd k] obtain off1 k1 st1 where
    step: "clusterStep t rnd c (off, k, st) = Inr (off1, k1, st1)" by blast
  note fr = clusterStep_frame[OF step]
  have 1: "wf_state st1" by (rule clusterStep_wf[OF step wf])
  have "set (pixelIndices st1) = set (pixelIndices st)"
    using clusterStep_mset[OF step wf] by (metis mset_eq_setD)
  then have 2: "positions_ok st1" using pos by (simp add: positions_ok_def)
  have 3: "pixels_nonneg st1" using nn fr by (simp add: pixels_nonneg_def)
  have 4: "totalPixels st1 \<le> 104" using tot fr by (simp add: totalPixels_def)
  have 5: "cells_match st1"
    by (rule clusterStep_cells_match[OF step cm c off lpI px])
  from step 1 2 3 4 5 fr oS show ?thesis by (simp add: healthy_def)
qed

lemma updatePortfolioPattern_healthy:
  assumes "healthy st"
  shows "\<exists>st'. updatePortfolioPattern t rnd st = Inr st' \<and> healthy st' \<and>
           clusters st' = clusters st \<and> numClusters st' = numClusters st"
proof -
  let ?I = "\<lambda>j off s. healthy s \<and> clusters s = clusters st \<and> numClusters s = numClusters st \<and>
                      off = offset (clusters st) j"
  have "\<exists>off' k' st'. updateLoop t rnd [0..<numClusters st] (0, 0, st) = Inr (off', k', st') \<and>
          ?I (numClusters st) off' st'"
  proof (rule updateLoop_total_rule[where I = ?I])
    show "?I 0 0 st" using assms by (simp add: offset_0)
    show "0 \<le> numClusters st" by simp
    fix j off k s
    assume j: "j < numClusters st" and I: "?I j off s"
    then have "j < numClusters s" "off = offset (clusters s) j" by simp_all
    from clusterStep_healthy[OF _ this, of t rnd k] I
    show "\<exists>off1 k1 st1. clusterStep t rnd j (off, k, s) = Inr (off1, k1, st1) \<and> ?I (Suc j) off1 st1"
      by auto
  qed
  then show ?thesis by (auto simp: updatePortfolioPattern_def)
qed

lemma updateCalls_healthy:
  "healthy st \<Longrightarrow>
   \<exists>st'. updateCalls calls st = Inr st' \<and> healthy st' \<and>
         clusters st' = clusters st \<and> numClusters st' = numClusters st"
proof (induction calls arbitrary: st)
  case Nil
  then show ?case by simp
next
  case (Cons call calls)
  obtain t rnd where call: "call = (t, rnd)" by (cases call)
  from updatePortfolioPattern_healthy[OF Cons.prems, of t rnd] obtain st1 where
    u: "updatePortfolioPattern t rnd st = Inr st1" and h1: "healthy st1"
    and same: "clusters st1 = clusters st" "numClusters st1 = numClusters st" by blast
  from Cons.IH[OF h1] same u show ?case by (auto simp: call)
qed

lemma setPortfolioMode_healthy:
  assumes wf: "wf_state st" and perm: "is_permutation (pixelIndices st)"
    and tot: "totalPixels (parseClusterData json st) \<le> 104"
  shows "\<exists>st1. setPortfolioMode json st = Inr st1 \<and> healthy st1 \<and>
           clusters st1 = clusters (parseClusterData json st) \<and>
           numClusters st1 = numClusters (parseClusterData json st)"
proof -
  let ?P = "parseClusterData json st"
  have nonneg: "\<forall>j<numClusters ?P. 0 \<le> pixels (clusters ?P ! j)"
    using parseClusterData_nonneg[OF wf, of json] by (simp add: pixels_nonneg_def)
  have n: "numClusters ?P \<le> length (clusters ?P)"
    using parseClusterData_wf[OF wf, of json] by (simp add: wf_state_def)
  have pI: "pixelIndices ?P = pixelIndices st"
    using parseClusterData_other_fields[of json st] by simp
  from assignClusters_writes[OF perm nonneg tot[unfolded totalPixels_offset] n, of 0 "replicate 104 0"]
  obtain p' g' where
    "assignClusters (clusters ?P) (pixelIndices st) [0..<numClusters ?P] (0, replicate 104 0) = Inr (p', g')"
    by (auto simp: offset_0)
  then have "\<exists>st1. setPortfolioMode json st = Inr st1"
    by (simp add: setPortfolioMode_def Let_def pI)
  then obtain st1 where set: "setPortfolioMode json st = Inr st1" by blast
  note w = setPortfolioMode_wf[OF set wf]
  have "positions_ok st1" using perm w by (simp add: positions_ok_def is_permutation_def)
  moreover have "totalPixels st1 \<le> 104" using tot w by (simp add: totalPixels_def)
  moreover have "cells_match st1" by (rule setPortfolioMode_cells_match[OF set wf perm tot])
  ultimately show ?thesis using set w by (auto simp: healthy_def)
qed

text \<open>
  C3. From a state whose arrays have their declared sizes and whose pixel ordering is a
  permutation of the 104 positions, for an input that parses to at least one cluster, with
  cluster ids in 0..5 and pixel counts summing to at most 104: \<open>setPortfolioMode\<close> returns
  with the mode active and, for every active cluster and every logical index of its range,
  the grid cell the index names holds the cluster's id; every sequence of update calls
  after it, whatever the clock readings and random values, returns, and the same holds of
  the state it reaches.
\<close>

theorem grid_follows_pixel_ordering:
  assumes "wf_state st" and "is_permutation (pixelIndices st)"
    and "0 < numClusters (parseClusterData json st)"
    and "totalPixels (parseClusterData json st) \<le> 104"
    and "ids_ok (parseClusterData json st)"
  shows "\<exists>st1 st2. setPortfolioMode json st = Inr st1 \<and> inPortfolioMode st1 \<and> grid_consistent st1 \<and>
           updateCalls calls st1 = Inr st2 \<and> grid_consistent st2"
proof -
  from setPortfolioMode_healthy[OF assms(1,2,4)] obtain st1 where
    set: "setPortfolioMode json st = Inr st1" and h1: "healthy st1"
    and s1: "clusters st1 = clusters (parseClusterData json st)"
            "numClusters st1 = numClusters (parseClusterData json st)" by blast
  from updateCalls_healthy[OF h1, of calls] obtain st2 where
    run: "updateCalls calls st1 = Inr st2" and h2: "healthy st2"
    and s2: "clusters st2 = clusters st1" "numClusters st2 = numClusters st1" by blast
  have i1: "ids_ok st1" and i2: "ids_ok st2"
    using assms(5) s1 s2 by (simp_all add: ids_ok_def)
  have "grid_consistent st1" "grid_consistent st2"
    using h1 h2 grid_consistent_iff[OF i1] grid_consistent_iff[OF i2] by (simp_all add: healthy_def)
  moreover have "inPortfolioMode st1"
    using set assms(3) by (auto simp: setPortfolioMode_def Let_def split: sum.splits)
  ultimately show ?thesis using set run by blast
qed

section \<open>The sampling passes\<close>

lemma first_max_split:
  assumes "ds = pre @ r # post" "\<forall>d \<in> set pre. f d < f r" "\<forall>d \<in> set post. f d \<le> f r"
  shows "first_max f ds r"
proof -
  have top: "\<forall>e \<in> set ds. f e \<le> f r"
    using assms by auto
  have "\<exists>i<length ds. (\<forall>e \<in> set ds. f e \<le> f (ds ! i)) \<and> r = ds ! i \<and>
          (\<forall>j<i. \<not> (\<forall>e \<in> set ds. f e \<le> f (ds ! j)))"
  proof (intro exI[of _ "length pre"] conjI allI impI)
    show "length pre < length ds" using assms(1) by simp
    show r: "r = ds ! length pre" using assms(1) by simp
    show "\<forall>e \<in> set ds. f e \<le> f (ds ! length pre)" using top r by simp
    fix j assume j: "j < length pre"
    then have "ds ! j = pre ! j" using assms(1) by (simp add: nth_append)
    moreover have "f (pre ! j) < f r" using assms(2) j by simp
    moreover have "r \<in> set ds" using assms(1) by simp
    ultimately show "\<not> (\<forall>e \<in> set ds. f e \<le> f (ds ! j))" by force
  qed
  then show ?thesis by (simp add: first_max_def find_Some_iff list_all_iff)
qed

lemma draws_Suc: "draws rnd cl off k (Suc n) = drawn rnd cl off k # draws rnd cl off (Suc k) n"
  by (simp add: draws_def upt_conv_Cons del: upt_Suc)

lemma isolatedLoop_pick:
  assumes "\<forall>d \<in> set (draws rnd cl off k n). 0 \<le> d \<and> d < TOTAL_PIXELS"
  shows "\<exists>b' w'. isolatedLoop n st rnd cl off (k, b, w) = Inr (k + n, b', w') \<and>
           ((b' = b \<and> w' = w \<and> (\<forall>d \<in> set (draws rnd cl off k n). score_at st cl d \<le> w)) \<or>
            (w < w' \<and> w' = score_at st cl b' \<and>
             (\<exists>pre post. draws rnd cl off k n = pre @ b' # post \<and>
                (\<forall>d \<in> set pre. score_at st cl d < score_at st cl b') \<and>
                (\<forall>d \<in> set post. score_at st cl d \<le> score_at st cl b'))))"
  using assms
proof (induction n arbitrary: k b w)
  case 0
  then show ?case by (simp add: draws_def)
next
  case (Suc n)
  let ?d = "drawn rnd cl off k"
  let ?f = "score_at st cl"
  have d: "0 \<le> ?d" "?d < TOTAL_PIXELS" and rest: "\<forall>d \<in> set (draws rnd cl off (Suc k) n). 0 \<le> d \<and> d < TOTAL_PIXELS"
    using Suc.prems by (simp_all add: draws_Suc)
  show ?case
  proof (cases "?f ?d > w")
    case True
    have body: "isolatedBody st rnd cl off (k, b, w) = Inr (Suc k, ?d, ?f ?d)"
      using d True by (simp add: isolatedBody_eq Let_def)
    from Suc.IH[OF rest, of ?d "?f ?d"] obtain b' w' where
      r: "isolatedLoop n st rnd cl off (Suc k, ?d, ?f ?d) = Inr (Suc k + n, b', w')"
      and alt: "(b' = ?d \<and> w' = ?f ?d \<and> (\<forall>e \<in> set (draws rnd cl off (Suc k) n). ?f e \<le> ?f ?d)) \<or>
            (?f ?d < w' \<and> w' = ?f b' \<and>
             (\<exists>pre post. draws rnd cl off (Suc k) n = pre @ b' # post \<and>
                (\<forall>e \<in> set pre. ?f e < ?f b') \<and> (\<forall>e \<in> set post. ?f e \<le> ?f b')))"
      by blast
    have run: "isolatedLoop (Suc n) st rnd cl off (k, b, w) = Inr (k + Suc n, b', w')"
      using body r by simp
    from alt have "w < w' \<and> w' = ?f b' \<and>
             (\<exists>pre post. draws rnd cl off k (Suc n) = pre @ b' # post \<and>
                (\<forall>e \<in> set pre. ?f e < ?f b') \<and> (\<forall>e \<in> set post. ?f e \<le> ?f b'))"
    proof
      assume a: "b' = ?d \<and> w' = ?f ?d \<and> (\<forall>e \<in> set (draws rnd cl off (Suc k) n). ?f e \<le> ?f ?d)"
      then have "draws rnd cl off k (Suc n) = [] @ b' # draws rnd cl off (Suc k) n"
        by (simp add: draws_Suc)
      with a True show ?thesis by (metis empty_iff list.set(1))
    next
      assume a: "?f ?d < w' \<and> w' = ?f b' \<and>
             (\<exists>pre post. draws rnd cl off (Suc k) n = pre @ b' # post \<and>
                (\<forall>e \<in> set pre. ?f e < ?f b') \<and> (\<forall>e \<in> set post. ?f e \<le> ?f b'))"
      then obtain pre post where p: "draws rnd cl off (Suc k) n = pre @ b' # post"
        "\<forall>e \<in> set pre. ?f e < ?f b'" "\<forall>e \<in> set post. ?f e \<le> ?f b'" by blast
      have "draws rnd cl off k (Suc n) = (?d # pre) @ b' # post"
        using p(1) by (simp add: draws_Suc)
      moreover have "\<forall>e \<in> set (?d # pre). ?f e < ?f b'" using p(2) a by simp
      ultimately show ?thesis using a True p(3) by (metis less_trans)
    qed
    with run show ?thesis by blast
  next
    case False
    have body: "isolatedBody st rnd cl off (k, b, w) = Inr (Suc k, b, w)"
      using d False by (simp add: isolatedBody_eq Let_def)
    from Suc.IH[OF rest, of b w] obtain b' w' where
      r: "isolatedLoop n st rnd cl off (Suc k, b, w) = Inr (Suc k + n, b', w')"
      and alt: "(b' = b \<and> w' = w \<and> (\<forall>e \<in> set (draws rnd cl off (Suc k) n). ?f e \<le> w)) \<or>
            (w < w' \<and> w' = ?f b' \<and>
             (\<exists>pre post. draws rnd cl off (Suc k) n = pre @ b' # post \<and>
                (\<forall>e \<in> set pre. ?f e < ?f b') \<and> (\<forall>e \<in> set post. ?f e \<le> ?f b')))"
      by blast
    have run: "isolatedLoop (Suc n) st rnd cl off (k, b, w) = Inr (k + Suc n, b', w')"
      using body r by simp
    from alt show ?thesis
    proof
      assume "b' = b \<and> w' = w \<and> (\<forall>e \<in> set (draws rnd cl off (Suc k) n). ?f e \<le> w)"
      with False run show ?thesis by (auto simp: draws_Suc)
    next
      assume a: "w < w' \<and> w' = ?f b' \<and>
             (\<exists>pre post. draws rnd cl off (Suc k) n = pre @ b' # post \<and>
                (\<forall>e \<in> set pre. ?f e < ?f b') \<and> (\<forall>e \<in> set post. ?f e \<le> ?f b'))"
      then obtain pre post where p: "draws rnd cl off (Suc k) n = pre @ b' # post"
        "\<forall>e \<in> set pre. ?f e < ?f b'" "\<forall>e \<in> set post. ?f e \<le> ?f b'" by blast
      have "draws rnd cl off k (Suc n) = (?d # pre) @ b' # post"
        using p(1) by (simp add: draws_Suc)
      moreover have "\<forall>e \<in> set (?d # pre). ?f e < ?f b'" using p(2) a False by auto
      ultimately have "\<exists>pre post. draws rnd cl off k (Suc n) = pre @ b' # post \<and>
                (\<forall>e \<in> set pre. ?f e < ?f b') \<and> (\<forall>e \<in> set post. ?f e \<le> ?f b')"
        using p(3) by blast
      with a run show ?thesis by blast
    qed
  qed
qed

lemma score_at_bounds: "- 8 \<le> score_at st cl idx \<and> score_at st cl idx \<le> 8"
  using scores_bounded[of "pixelClusterID st" "pixelIndices st ! nat idx mod 13"
      "pixelIndices st ! nat idx div 13" "clusterID cl"]
  by (simp add: score_at_def Let_def)

lemma score_at_stamp: "score_at (stamp t c st) cl = score_at st cl"
  by (simp add: fun_eq_iff score_at_def stamp_fields)

lemma draws_in_range:
  "0 < pixels cl \<Longrightarrow> \<forall>d \<in> set (draws rnd cl off k n). in_range off cl d"
  by (simp add: draws_def drawn_in_range)

lemma isolatedLoop_first_max:
  assumes pos: "0 < pixels cl" and n: "0 < n" and off: "0 \<le> off" "off + pixels cl \<le> 104"
  shows "\<exists>r. isolatedLoop n st rnd cl off (k, fallback, - 100) = Inr (k + n, r, score_at st cl r) \<and>
           first_max (score_at st cl) (draws rnd cl off k n) r"
proof -
  have inb: "\<forall>d \<in> set (draws rnd cl off k n). 0 \<le> d \<and> d < TOTAL_PIXELS"
    using draws_in_range[OF pos, of rnd off k n] off
    by (auto simp: in_range_def TOTAL_PIXELS_def)
  from isolatedLoop_pick[OF inb, of st fallback "- 100"] obtain b' w' where
    run: "isolatedLoop n st rnd cl off (k, fallback, - 100) = Inr (k + n, b', w')"
    and alt: "(b' = fallback \<and> w' = - 100 \<and>
                (\<forall>d \<in> set (draws rnd cl off k n). score_at st cl d \<le> - 100)) \<or>
            (- 100 < w' \<and> w' = score_at st cl b' \<and>
             (\<exists>pre post. draws rnd cl off k n = pre @ b' # post \<and>
                (\<forall>d \<in> set pre. score_at st cl d < score_at st cl b') \<and>
                (\<forall>d \<in> set post. score_at st cl d \<le> score_at st cl b')))"
    by blast
  obtain m where m: "n = Suc m" using n by (cases n) auto
  have "drawn rnd cl off k \<in> set (draws rnd cl off k n)"
    by (simp add: m draws_Suc)
  moreover have "- 8 \<le> score_at st cl (drawn rnd cl off k)"
    using score_at_bounds by blast
  ultimately have "\<not> (\<forall>d \<in> set (draws rnd cl off k n). score_at st cl d \<le> - 100)"
    by force
  with alt obtain pre post where w': "w' = score_at st cl b'"
    and sp: "draws rnd cl off k n = pre @ b' # post"
      "\<forall>d \<in> set pre. score_at st cl d < score_at st cl b'"
      "\<forall>d \<in> set post. score_at st cl d \<le> score_at st cl b'"
    by blast
  from first_max_split[OF sp] run w' show ?thesis by blast
qed

text \<open>
  For a due cluster with a positive pixel count and a sample count of at least 1 whose
  logical range lies inside the pixel ordering: each of the two sampling loops ends with
  the first of its drawn indices that attains the maximum of the score (same-cluster minus
  other-cluster neighbours) over its draws, never with the fallback drawn before the loop,
  every score being at least -8; the step then swaps these two indices.
\<close>

lemma both_passes_keep_first_maximum:
  assumes "\<not> not_due t st c" and "0 < pixels (clusters st ! c)"
    and "1 \<le> clustering (clusters st ! c)"
    and "0 \<le> off" and "off + pixels (clusters st ! c) \<le> 104"
  shows "\<exists>a b.
           first_max (score_at st (clusters st ! c))
             (draws rnd (clusters st ! c) off (k + 1) (nat (clustering (clusters st ! c)))) a \<and>
           first_max (score_at st (clusters st ! c))
             (draws rnd (clusters st ! c) off (k + nat (clustering (clusters st ! c)) + 2)
                (nat (clustering (clusters st ! c)))) b \<and>
           - 8 \<le> score_at st (clusters st ! c) a \<and> - 8 \<le> score_at st (clusters st ! c) b \<and>
           in_range off (clusters st ! c) a \<and> in_range off (clusters st ! c) b \<and>
           clusterStep t rnd c (off, k, st) =
             (case swapPixels a b (stamp t c st) of
                Inl e \<Rightarrow> Inl e
              | Inr st2 \<Rightarrow>
                  Inr (off + pixels (clusters st ! c),
                       k + 2 * nat (clustering (clusters st ! c)) + 2, st2))"
proof -
  let ?cl = "clusters st ! c"
  let ?n = "nat (clustering ?cl)"
  let ?st1 = "stamp t c st"
  have n: "0 < ?n" using assms(3) by simp
  from isolatedLoop_first_max[OF assms(2) n assms(4,5), of ?st1 rnd "k + 1" "drawn rnd ?cl off k"]
  obtain a where
    l1: "isolatedLoop ?n ?st1 rnd ?cl off (k + 1, drawn rnd ?cl off k, - 100)
           = Inr (k + 1 + ?n, a, score_at st ?cl a)"
    and f1: "first_max (score_at st ?cl) (draws rnd ?cl off (k + 1) ?n) a"
    by (auto simp: score_at_stamp)
  from isolatedLoop_first_max[OF assms(2) n assms(4,5), of ?st1 rnd "k + 1 + ?n + 1"
      "drawn rnd ?cl off (k + 1 + ?n)"]
  obtain b where
    l2: "isolatedLoop ?n ?st1 rnd ?cl off (k + 1 + ?n + 1, drawn rnd ?cl off (k + 1 + ?n), - 100)
           = Inr (k + 1 + ?n + 1 + ?n, b, score_at st ?cl b)"
    and f2: "first_max (score_at st ?cl) (draws rnd ?cl off (k + 1 + ?n + 1) ?n) b"
    by (auto simp: score_at_stamp)
  have ra: "in_range off ?cl a"
    using isolatedLoop_in_range[OF l1 assms(2) drawn_in_range[OF assms(2)]] by simp
  have rb: "in_range off ?cl b"
    using isolatedLoop_in_range[OF l2 assms(2) drawn_in_range[OF assms(2)]] by simp
  have k2: "k + 1 + ?n + 1 = k + ?n + 2" "k + 1 + ?n + 1 + ?n = k + 2 * ?n + 2" by simp_all
  have step: "clusterStep t rnd c (off, k, st) =
             (case swapPixels a b ?st1 of Inl e \<Rightarrow> Inl e
              | Inr st2 \<Rightarrow> Inr (off + pixels ?cl, k + 2 * ?n + 2, st2))"
    using assms(1,2) l1 l2
    by (simp add: clusterStep_def not_due_def Let_def targetLoop_eq drawn_def stamp_def k2
             split: sum.splits)
  from f1 f2[unfolded k2] ra rb step score_at_bounds[of st ?cl a] score_at_bounds[of st ?cl b]
  show ?thesis by blast
qed

section \<open>Applying a configuration twice\<close>

lemma assignPixels_total:
  assumes "length pI = 104" "\<forall>p \<in> set pI. unat p < 104"
  shows "\<exists>r. assignPixels m cid pI (p, g) = Inr r"
proof (induction m arbitrary: p g)
  case 0
  then show ?case by simp
next
  case (Suc m)
  show ?case
  proof (cases "int p < TOTAL_PIXELS")
    case False
    then show ?thesis by simp
  next
    case True
    then have "pI ! p \<in> set pI" using assms(1) by (simp add: TOTAL_PIXELS_def)
    then have "unat (pI ! p) < 104" using assms(2) by blast
    then show ?thesis
      using True Suc.IH by (simp add: Let_def row_in_grid)
  qed
qed

lemma assignClusters_total:
  assumes "length pI = 104" "\<forall>p \<in> set pI. unat p < 104"
  shows "\<exists>r. assignClusters cs pI js (p, g) = Inr r"
proof (induction js arbitrary: p g)
  case Nil
  then show ?case by simp
next
  case (Cons j js)
  from assignPixels_total[OF assms, of "nat (pixels (cs ! j))" "clusterID (cs ! j)" p g]
  obtain p1 g1 where "assignPixels (nat (pixels (cs ! j))) (clusterID (cs ! j)) pI (p, g) = Inr (p1, g1)"
    by (metis prod.exhaust)
  with Cons.IH[of p1 g1] show ?case by simp
qed

lemma setPortfolioMode_total:
  assumes "wf_state st" "positions_ok st"
  shows "\<exists>st1. setPortfolioMode json st = Inr st1"
proof -
  let ?P = "parseClusterData json st"
  have pI: "pixelIndices ?P = pixelIndices st"
    using parseClusterData_other_fields[of json st] by simp
  have "length (pixelIndices st) = 104" "\<forall>p \<in> set (pixelIndices st). unat p < 104"
    using assms by (simp_all add: wf_state_def positions_ok_def)
  from assignClusters_total[OF this, of "clusters ?P" "[0..<numClusters ?P]" 0 "replicate 104 0"]
  obtain pixelIdx g where
    "assignClusters (clusters ?P) (pixelIndices st) [0..<numClusters ?P] (0, replicate 104 0)
       = Inr (pixelIdx, g)"
    by (metis prod.exhaust)
  then show ?thesis
    by (simp add: setPortfolioMode_def Let_def pI)
qed

text \<open>
  C9, amended. From a state whose arrays have their declared sizes and whose pixel
  ordering holds positions of the matrix, \<open>setPortfolioMode\<close> returns, and a second call
  with the same input right after it returns exactly the state the first call returned:
  the same grid, cluster descriptors and timers. When at least one cluster was parsed the
  timers are all zero; when none was parsed the timers and the grid are those from
  before the first call.
\<close>

theorem setPortfolioMode_twice:
  assumes "wf_state st" and "positions_ok st"
  shows "\<exists>st1. setPortfolioMode json st = Inr st1 \<and>
           setPortfolioMode json st1 = Inr st1 \<and>
           (0 < numClusters st1 \<longrightarrow> lastUpdateTime st1 = replicate 6 0) \<and>
           (numClusters st1 = 0 \<longrightarrow>
              lastUpdateTime st1 = lastUpdateTime st \<and> pixelClusterID st1 = pixelClusterID st)"
proof -
  from setPortfolioMode_total[OF assms] obtain st1 where
    set: "setPortfolioMode json st = Inr st1" by blast
  note again = setPortfolioMode_again[OF assms(1) set]
  from set have "(0 < numClusters st1 \<longrightarrow> lastUpdateTime st1 = replicate 6 0) \<and>
           (numClusters st1 = 0 \<longrightarrow>
              lastUpdateTime st1 = lastUpdateTime st \<and> pixelClusterID st1 = pixelClusterID st)"
  proof (cases rule: setPortfolioMode_cases)
    case none
    then show ?thesis using parseClusterData_other_fields[of json st] by simp
  next
    case (some pixelIdx g)
    then show ?thesis by (simp add: MAX_CLUSTERS_def)
  qed
  then show ?thesis
    by (intro exI[of _ st1]) (use set again in simp)
qed

lemma stale_state_ok: "wf_state stale_state \<and> positions_ok stale_state"
proof -
  have "unat (of_nat i :: u8) < 104" if "i < 104" for i :: nat
    using that by (simp add: unat_of_nat)
  then show ?thesis
    by (auto simp: wf_state_def positions_ok_def stale_state_def mixed_state_def boot_state_def
        striped_grid_def MAX_CLUSTERS_def)
qed

lemma stale_state_set:
  "setPortfolioMode short_config stale_state = Inr valid_state"
  by code_simp

theorem setPortfolioMode_twice_witness:
  "wf_state stale_state \<and> positions_ok stale_state \<and>
   lastUpdateTime stale_state = [500, 500, 500, 0, 0, 0] \<and>
   pixelClusterID stale_state = striped_grid \<and>
   setPortfolioMode short_config stale_state = Inr valid_state \<and>
   setPortfolioMode short_config valid_state = Inr valid_state \<and>
   numClusters valid_state = 3 \<and>
   lastUpdateTime valid_state = [0, 0, 0, 0, 0, 0]"
proof -
  from setPortfolioMode_twice[of stale_state short_config] stale_state_ok
  obtain st1 where "setPortfolioMode short_config stale_state = Inr st1"
    "setPortfolioMode short_config st1 = Inr st1" by blast
  with stale_state_set have "setPortfolioMode short_config valid_state = Inr valid_state"
    by simp
  moreover have "lastUpdateTime stale_state = [500, 500, 500, 0, 0, 0]"
    "pixelClusterID stale_state = striped_grid"
    by (simp_all add: stale_state_def mixed_state_def)
  moreover have "numClusters valid_state = 3" "lastUpdateTime valid_state = [0, 0, 0, 0, 0, 0]"
    by (simp_all add: valid_state_def numeral_eq_Suc)
  ultimately show ?thesis using stale_state_ok stale_state_set by (intro conjI) simp_all
qed

text \<open>
  C9, as stated: after both calls the timers are all zero. With the empty configuration
  applied twice to a state whose timers are 500, 500, 500, 0, 0, 0 both calls return the
  same state, and its timers are not all zero.
\<close>

theorem timers_not_zero_counterexample:
  "setPortfolioMode empty_config stale_state
     = Inr (stale_state\<lparr> numClusters := 0, inPortfolioMode := False \<rparr>) \<and>
   setPortfolioMode empty_config (stale_state\<lparr> numClusters := 0, inPortfolioMode := False \<rparr>)
     = Inr (stale_state\<lparr> numClusters := 0, inPortfolioMode := False \<rparr>) \<and>
   lastUpdateTime (stale_state\<lparr> numClusters := 0, inPortfolioMode := False \<rparr>) \<noteq> replicate 6 0"
proof -
  have "setPortfolioMode empty_config stale_state
     = Inr (stale_state\<lparr> numClusters := 0, inPortfolioMode := False \<rparr>)"
    by code_simp
  moreover have "setPortfolioMode empty_config (stale_state\<lparr> numClusters := 0, inPortfolioMode := False \<rparr>)
     = Inr (stale_state\<lparr> numClusters := 0, inPortfolioMode := False \<rparr>)"
    by code_simp
  moreover have "lastUpdateTime (stale_state\<lparr> numClusters := 0, inPortfolioMode := False \<rparr>) \<noteq> replicate 6 0"
    by code_simp
  ultimately show ?thesis by (intro conjI)
qed

section \<open>A configuration beyond the capacity, and a run within it\<close>

lemma overrun_set: "setPortfolioMode overrun_config boot_state = Inr overrun_state"
  by code_simp

lemma overrun_update:
  "updatePortfolioPattern 60 always_50 overrun_state = Inl (PixelIndexOutOfBounds 110)"
  by code_simp



text \<open>
  C1. The claim: every index the update step uses on the 104-entry pixel ordering lies in
  the range 0..103, because configurations beyond the capacity are rejected or truncated
  first. \<open>setPortfolioMode\<close> accepts two clusters of 60 pixels and stores both counts; in
  the update call 60 ms later the second cluster's range starts at 60 and its first sample
  is index 110, which the source reads with no check.
\<close>

theorem update_indexes_past_pixel_ordering:
  "setPortfolioMode overrun_config boot_state = Inr overrun_state \<and>
   updatePortfolioPattern 60 always_50 overrun_state = Inl (PixelIndexOutOfBounds 110) \<and>
   \<not> 110 < TOTAL_PIXELS"
  using overrun_set overrun_update by (simp add: TOTAL_PIXELS_def)




lemma boot_state_permutation: "is_permutation (pixelIndices boot_state)"
proof -
  have u: "unat (of_nat i :: u8) = i" if "i < 104" for i :: nat
    using that by (simp add: unat_of_nat)
  have "inj_on (of_nat :: nat \<Rightarrow> u8) (set [0..<104])"
  proof (rule inj_onI)
    fix x y :: nat
    assume "x \<in> set [0..<104]" "y \<in> set [0..<104]" "(of_nat x :: u8) = of_nat y"
    then have "unat (of_nat x :: u8) = unat (of_nat y :: u8)" "x < 104" "y < 104" by simp_all
    then show "x = y" using u by simp
  qed
  then have "distinct (map (of_nat :: nat \<Rightarrow> u8) [0..<104])"
    by (simp add: distinct_map)
  moreover have "\<forall>p \<in> set (map (of_nat :: nat \<Rightarrow> u8) [0..<104]). unat p < 104"
    using u by auto
  ultimately show ?thesis
    by (simp add: is_permutation_def boot_state_def)
qed

lemma valid_state_set: "setPortfolioMode short_config boot_state = Inr valid_state"
  by code_simp

lemma valid_state_calls: "updateCalls two_calls valid_state = Inr after_250"
  by code_simp

lemma after_250_facts:
  "in_range (offset (clusters after_250) 1) (clusters after_250 ! 1) (int 41) \<and>
   clusterID (clusters after_250 ! 1) = 2 \<and> pixelIndices after_250 ! 41 = 57 \<and>
   pixelIndices valid_state ! 41 = 41"
  by code_simp

theorem grid_follows_pixel_ordering_witness:
  "wf_state boot_state \<and> is_permutation (pixelIndices boot_state) \<and>
   setPortfolioMode short_config boot_state = Inr valid_state \<and>
   numClusters valid_state = 3 \<and> totalPixels valid_state = 104 \<and>
   updateCalls two_calls valid_state = Inr after_250 \<and>
   pixelIndices valid_state ! 41 = 41 \<and>
   pixelIndices after_250 ! 41 = 57 \<and>
   uint (pixelClusterID after_250 ! 57) = 2"
proof -
  let ?P = "parseClusterData short_config boot_state"
  have wf: "wf_state boot_state"
    by (simp add: wf_state_def boot_state_def MAX_CLUSTERS_def)
  note w = setPortfolioMode_wf[OF valid_state_set wf]
  have nv: "numClusters valid_state = 3" by (simp add: valid_state_def)
  have tv: "totalPixels valid_state = 104"
    by (simp add: totalPixels_def valid_state_def numeral_3_eq_3)
  have n: "0 < numClusters ?P" using w nv by simp
  have tot: "totalPixels ?P \<le> 104" using w tv by (simp add: totalPixels_def)
  have ids: "ids_ok ?P"
    unfolding ids_ok_def
  proof (intro allI impI)
    fix c assume "c < numClusters ?P"
    then have "c = 0 \<or> c = 1 \<or> c = 2" using w nv by auto
    moreover have "clusters ?P = clusters valid_state" using w by simp
    ultimately show "0 \<le> clusterID (clusters ?P ! c) \<and> clusterID (clusters ?P ! c) \<le> 5"
      by (auto simp: valid_state_def)
  qed
  from grid_follows_pixel_ordering[OF wf boot_state_permutation n tot ids, of two_calls]
  obtain st1 st2 where set: "setPortfolioMode short_config boot_state = Inr st1"
    and run: "updateCalls two_calls st1 = Inr st2" and gc: "grid_consistent st2" by blast
  have st1: "st1 = valid_state" using set valid_state_set by simp
  have st2: "st2 = after_250" using run st1 valid_state_calls by simp
  have "1 < numClusters after_250" by (simp add: after_250_def valid_state_def)
  with gc[unfolded grid_consistent_def grid_index_pos st2] after_250_facts
  have "uint (pixelClusterID after_250 ! unat (pixelIndices after_250 ! 41)) = 2"
    by metis
  then have "uint (pixelClusterID after_250 ! 57) = 2"
    using after_250_facts by simp
  with wf boot_state_permutation valid_state_set nv tv valid_state_calls after_250_facts
  show ?thesis by (intro conjI) simp_all
qed

end
